theory Spec2Isabelle
  imports Main "HOL-Library.Word"
begin

unbundle bit_operations_syntax

section \<open>Machine types and raw element access\<close>

text \<open>
  \<open>uint64_t\<close> and \<open>size_t\<close> are 64-bit words (the code itself relies on this: \<open>ilog2\<close>
  computes \<open>63 - __builtin_clzll(x)\<close>). A byte buffer (\<open>std::vector<char>\<close>,
  \<open>std::string\<close>) is a list of 8-bit characters.
\<close>

type_synonym u64 = "64 word"
type_synonym bytes = string

text \<open>
  \<open>std::array::operator[]\<close> and pointer indexing have no bounds check: an access outside
  the array has no defined result, which the model records as \<open>None\<close>.
\<close>

definition elem_at :: "'a list \<Rightarrow> u64 \<Rightarrow> 'a option" where
  "elem_at xs i = (if unat i < length xs then Some (xs ! unat i) else None)"

definition elem_put :: "'a list \<Rightarrow> u64 \<Rightarrow> 'a \<Rightarrow> 'a list option" where
  "elem_put xs i v = (if unat i < length xs then Some (xs[unat i := v]) else None)"

section \<open>\<open>merkle_utils.hpp\<close>\<close>

text \<open>
  The two compiler builtins, by their documented meaning: \<open>__builtin_clzll\<close> is the number
  of leading zero bits of a 64-bit value, \<open>__builtin_popcount\<close> the number of one bits of an
  \<open>unsigned int\<close>, which is 32 bits wide.
\<close>

fun bit_width :: "nat \<Rightarrow> nat" where
  "bit_width n = (if n = 0 then 0 else Suc (bit_width (n div 2)))"

fun one_bits :: "nat \<Rightarrow> nat" where
  "one_bits n = (if n = 0 then 0 else n mod 2 + one_bits (n div 2))"

declare bit_width.simps [simp del] one_bits.simps [simp del]

definition builtin_clzll :: "u64 \<Rightarrow> nat" where
  "builtin_clzll x = 64 - bit_width (unat x)"

definition builtin_popcount :: "32 word \<Rightarrow> nat" where
  "builtin_popcount x = one_bits (unat x)"

text \<open>\<open>ilog2\<close> at \<open>T = size_t\<close>: the \<open>int\<close> result is converted to \<open>size_t\<close>.\<close>

definition ilog2 :: "u64 \<Rightarrow> u64" where
  "ilog2 x = (if x \<noteq> 0 then word_of_int (63 - int (builtin_clzll x)) else - 1)"

section \<open>\<open>bytes_concat.hpp\<close>: the concatenator\<close>

text \<open>
  The concatenator is called with a salt (an \<open>int\<close>) followed by data items or hash values.
  The argument pack is a list of tagged values.
\<close>

datatype ('d, 'h) arg = Salt "32 word" | Data 'd | Hashed 'h

text \<open>
  \<open>UnifiedConcatenator::append\<close> copies an iterable element by element and any other
  argument by \<open>memcpy\<close> of its object representation. How a data item and a hash value are
  laid out as bytes depends on their C++ types and is a parameter; an \<open>int\<close> is four bytes,
  least significant first on the little-endian targets the library is built for.
\<close>

definition int_bytes :: "32 word \<Rightarrow> bytes" where
  "int_bytes w =
     [char_of (unat w), char_of (unat (drop_bit 8 w)),
      char_of (unat (drop_bit 16 w)), char_of (unat (drop_bit 24 w))]"

fun append_arg :: "('d \<Rightarrow> bytes) \<Rightarrow> ('h \<Rightarrow> bytes) \<Rightarrow> bytes \<Rightarrow> ('d, 'h) arg \<Rightarrow> bytes" where
  "append_arg dbytes hbytes dst (Salt s) = dst @ int_bytes s"
| "append_arg dbytes hbytes dst (Data d) = dst @ dbytes d"
| "append_arg dbytes hbytes dst (Hashed h) = dst @ hbytes h"

definition UnifiedConcatenator ::
    "('d \<Rightarrow> bytes) \<Rightarrow> ('h \<Rightarrow> bytes) \<Rightarrow> ('d, 'h) arg list \<Rightarrow> bytes" where
  "UnifiedConcatenator dbytes hbytes args = foldl (append_arg dbytes hbytes) [] args"

section \<open>\<open>merkle.hpp\<close>: \<open>calc_tree_size\<close> and \<open>TreeBase\<close>\<close>

function calc_tree_size_loop :: "u64 \<Rightarrow> u64 \<Rightarrow> u64" where
  "calc_tree_size_loop leafs_n s =
     (if 1 < leafs_n
      then (let n' = leafs_n + (leafs_n AND 1) in calc_tree_size_loop (drop_bit 1 n') (s + n'))
      else s)"
  by pat_completeness auto

termination calc_tree_size_loop
proof (relation "measure (\<lambda>(leafs_n, s). unat leafs_n)")
  show "wf (measure (\<lambda>(leafs_n, s). unat leafs_n))" by simp
next
  fix leafs_n s :: u64 and n'
  assume lt: "1 < leafs_n" and n': "n' = leafs_n + (leafs_n AND 1)"
  from lt have "2 \<le> unat leafs_n" by (simp add: word_less_nat_alt)
  moreover have "unat (drop_bit 1 n') = unat n' div 2"
    by (simp add: drop_bit_eq_div unat_div)
  moreover have "unat n' \<le> unat leafs_n + 1"
  proof -
    have "leafs_n AND 1 \<le> 1" by (rule word_and_le1)
    then have "unat (leafs_n AND 1) \<le> 1" by (simp add: word_le_nat_alt)
    moreover have "unat n' \<le> unat leafs_n + unat (leafs_n AND 1)"
      unfolding n' by (simp add: unat_word_ariths)
    ultimately show ?thesis by linarith
  qed
  ultimately have "unat (drop_bit 1 n') < unat leafs_n" by linarith
  then show "((drop_bit 1 n', s + n'), (leafs_n, s)) \<in> measure (\<lambda>(leafs_n, s). unat leafs_n)"
    by simp
qed

declare calc_tree_size_loop.simps [simp del]

definition calc_tree_size :: "u64 \<Rightarrow> u64" where
  "calc_tree_size leafs_n = calc_tree_size_loop leafs_n 1"

text \<open>
  \<open>TreeBase\<close> holds the two collaborators. \<open>m_hash\<close> takes the concatenated buffer;
  \<open>m_concat\<close> takes the argument pack.
\<close>

record ('d, 'h) TreeBase =
  m_hash :: "bytes \<Rightarrow> 'h"
  m_concat :: "('d, 'h) arg list \<Rightarrow> bytes"

definition leaf_salt :: "32 word" where "leaf_salt = 0x00"
definition node_salt :: "32 word" where "node_salt = 0x01"

definition leaf_hash :: "('d, 'h, 'z) TreeBase_scheme \<Rightarrow> ('d, 'h) arg list \<Rightarrow> 'h" where
  "leaf_hash tb args = m_hash tb (m_concat tb (Salt leaf_salt # args))"

definition node_hash :: "('d, 'h, 'z) TreeBase_scheme \<Rightarrow> ('d, 'h) arg list \<Rightarrow> 'h" where
  "node_hash tb args = m_hash tb (m_concat tb (Salt node_salt # args))"

text \<open>
  \<open>height\<close>: the argument of \<open>__builtin_popcount\<close> is converted from \<open>size_t\<close> to
  \<open>unsigned int\<close>; the \<open>int\<close> difference is then converted to \<open>bool\<close>.
\<close>

definition height :: "u64 \<Rightarrow> u64" where
  "height leafs_n =
     (if leafs_n \<noteq> 0
      then ilog2 leafs_n + (if int (builtin_popcount (ucast leafs_n)) - 1 \<noteq> 0 then 1 else 0)
      else 0)"

section \<open>\<open>merkle.hpp\<close>: \<open>FixedSizeTree\<close>\<close>

text \<open>
  The derived class adds the storage \<open>m_data\<close>, an array of \<open>SIZE = calc_tree_size(LEAFS_N)\<close>
  hashes. The template parameter \<open>LEAFS_N\<close> is carried as a field. A default-constructed
  tree has indeterminate storage, so the storage before \<open>build\<close> is an arbitrary list.
\<close>

record ('d, 'h) FixedSizeTree = "('d, 'h) TreeBase" +
  LEAFS_N :: u64
  m_data :: "'h list"

definition SIZE :: "('d, 'h) FixedSizeTree \<Rightarrow> u64" where
  "SIZE t = calc_tree_size (LEAFS_N t)"

definition tree_height :: "('d, 'h) FixedSizeTree \<Rightarrow> u64" where
  "tree_height t = height (LEAFS_N t)"

definition tree_size :: "('d, 'h) FixedSizeTree \<Rightarrow> u64" where
  "tree_size t = calc_tree_size (LEAFS_N t)"

subsection \<open>\<open>find_leaf\<close>, \<open>verify\<close>, \<open>has\<close>\<close>

text \<open>
  \<open>data()\<close> is a raw pointer, which is not iterable, so \<open>find_leaf\<close> takes its indexed
  branch. The sentinel \<open>(size_t)-1\<close> is the word \<open>- 1\<close>.
\<close>

function find_leaf_loop :: "'h list \<Rightarrow> 'h \<Rightarrow> u64 \<Rightarrow> u64 \<Rightarrow> u64 option" where
  "find_leaf_loop idata lhash leafs_n i =
     (if i < leafs_n
      then (case elem_at idata i of
              None \<Rightarrow> None
            | Some v \<Rightarrow> if v = lhash then Some i else find_leaf_loop idata lhash leafs_n (i + 1))
      else Some (- 1))"
  by pat_completeness auto
termination
proof (relation "measure (\<lambda>(idata, lhash, leafs_n, i). unat leafs_n - unat i)")
  show "wf (measure (\<lambda>(idata, lhash, leafs_n, i). unat leafs_n - unat i))" by simp
next
  fix idata :: "'h list" and lhash :: 'h and leafs_n i :: u64
  assume "i < leafs_n"
  then have "unat i < unat (leafs_n)" by (simp add: word_less_nat_alt)
  moreover have "unat (leafs_n) < 2 ^ 64" using unsigned_less [of "leafs_n"] by simp
  ultimately have "unat (i + 1) = Suc (unat i) \<and> unat i < unat (leafs_n)"
    by (simp add: unat_word_ariths)
  then show "((idata, lhash, leafs_n, i + 1), (idata, lhash, leafs_n, i)) \<in> measure (\<lambda>(idata, lhash, leafs_n, i). unat leafs_n - unat i)"
    by auto
qed

declare find_leaf_loop.simps [simp del]

definition find_leaf :: "('d, 'h) FixedSizeTree \<Rightarrow> ('d, 'h) arg list \<Rightarrow> u64 option" where
  "find_leaf t data = find_leaf_loop (m_data t) (leaf_hash t data) (LEAFS_N t) 0"

definition verify :: "('d, 'h) FixedSizeTree \<Rightarrow> ('d, 'h) arg list \<Rightarrow> bool option" where
  "verify t data = map_option (\<lambda>i. i \<noteq> - 1) (find_leaf t data)"

definition has :: "('d, 'h) FixedSizeTree \<Rightarrow> ('d, 'h) arg list \<Rightarrow> bool option" where
  "has t data = verify t data"

subsection \<open>\<open>get_layer\<close>\<close>

text \<open>
  The loop header is \<open>for(auto i = height-idx; i; --i, (n>>=1)+=n&1) offset += n;\<close>. The
  step on \<open>n\<close> is taken as: halve \<open>n\<close>, then add the low bit of the halved value. This is
  the reading under which the final \<open>n - !idx\<close> gives the root layer length 1, and under which
  the repository's test of the proofs of a five-leaf tree passes. (A compiler that reads the
  right operand \<open>n&1\<close> before it performs the shift of the left operand, as the C++17
  sequencing of compound assignment has it, adds the low bit of the value before halving, and
  both fail.)
\<close>

function get_layer_loop :: "u64 \<Rightarrow> u64 \<Rightarrow> u64 \<Rightarrow> u64 \<times> u64" where
  "get_layer_loop i offset n =
     (if i \<noteq> 0
      then (let n1 = drop_bit 1 n in get_layer_loop (i - 1) (offset + n) (n1 + (n1 AND 1)))
      else (offset, n))"
  by pat_completeness auto
termination
  by (relation "measure (\<lambda>(i, offset, n). unat i)") (auto simp: measure_unat)

declare get_layer_loop.simps [simp del]

definition get_layer :: "('d, 'h) FixedSizeTree \<Rightarrow> u64 \<Rightarrow> u64 \<times> u64" where
  "get_layer t idx =
     (let n0 = LEAFS_N t + (LEAFS_N t AND 1);
          res = get_layer_loop (height (LEAFS_N t) - idx) 0 n0
      in (fst res, snd res - (if idx = 0 then 1 else 0)))"

subsection \<open>\<open>build\<close>\<close>

fun fill_leaves ::
    "('d, 'h, 'z) TreeBase_scheme \<Rightarrow> 'd list \<Rightarrow> u64 \<Rightarrow> 'h list \<Rightarrow> 'h list option" where
  "fill_leaves tb [] it m = Some m"
| "fill_leaves tb (x # xs) it m =
     (case elem_put m it (leaf_hash tb [Data x]) of
        None \<Rightarrow> None
      | Some m' \<Rightarrow> fill_leaves tb xs (it + 1) m')"

function build_pairs ::
    "('d, 'h, 'z) TreeBase_scheme \<Rightarrow> u64 \<Rightarrow> u64 \<Rightarrow> u64 \<Rightarrow> 'h list \<Rightarrow> 'h list option" where
  "build_pairs tb l r i m =
     (if i < drop_bit 1 (r - l)
      then (case elem_at m (push_bit 1 i + l) of
              None \<Rightarrow> None
            | Some a \<Rightarrow>
               (case elem_at m (push_bit 1 i + l + 1) of
                  None \<Rightarrow> None
                | Some b \<Rightarrow>
                   (case elem_put m (r + i) (node_hash tb [Hashed a, Hashed b]) of
                      None \<Rightarrow> None
                    | Some m' \<Rightarrow> build_pairs tb l r (i + 1) m')))
      else Some m)"
  by pat_completeness auto
termination
proof (relation "measure (\<lambda>(tb, l, r, i, m). unat (drop_bit 1 (r - l)) - unat i)")
  show "wf (measure (\<lambda>(tb, l, r, i, m). unat (drop_bit 1 (r - l)) - unat i))" by simp
next
  fix tb :: "('d, 'h, 'z) TreeBase_scheme" and l r i :: u64 and m m' :: "'h list"
  assume "i < drop_bit 1 (r - l)"
  then have "unat i < unat (drop_bit 1 (r - l))" by (simp add: word_less_nat_alt)
  moreover have "unat (drop_bit 1 (r - l)) < 2 ^ 64" using unsigned_less [of "drop_bit 1 (r - l)"] by simp
  ultimately have "unat (i + 1) = Suc (unat i) \<and> unat i < unat (drop_bit 1 (r - l))"
    by (simp add: unat_word_ariths)
  then show "((tb, l, r, i + 1, m'), (tb, l, r, i, m)) \<in> measure (\<lambda>(tb, l, r, i, m). unat (drop_bit 1 (r - l)) - unat i)"
    by auto
qed

declare build_pairs.simps [simp del]

text \<open>
  The outer loop \<open>for(size_t t{}, l{}, r{LEAFS_N}; l < r-1; t = l, l = r, r += ((r - t) >> 1))\<close>.
  With \<open>LEAFS_N = 0\<close> the test \<open>l < r - 1\<close> wraps around and the loop never ends, so the
  loop is a partial function: \<open>None\<close> stands for no result. In
  \<open>m_data[r++] = m_data[r - 1]\<close> the right operand is evaluated first.
\<close>

partial_function (option) build_levels ::
    "('d, 'h, 'z) TreeBase_scheme \<Rightarrow> u64 \<Rightarrow> u64 \<Rightarrow> u64 \<Rightarrow> 'h list \<Rightarrow> 'h list option" where
  "build_levels tb t l r m =
     (if l < r - 1
      then (case (if r AND 1 \<noteq> 0
                  then (case elem_at m (r - 1) of None \<Rightarrow> None | Some v \<Rightarrow> elem_put m r v)
                  else Some m) of
              None \<Rightarrow> None
            | Some m1 \<Rightarrow>
               (case build_pairs tb l (if r AND 1 \<noteq> 0 then r + 1 else r) 0 m1 of
                  None \<Rightarrow> None
                | Some m2 \<Rightarrow>
                   build_levels tb l (if r AND 1 \<noteq> 0 then r + 1 else r)
                     ((if r AND 1 \<noteq> 0 then r + 1 else r)
                        + drop_bit 1 ((if r AND 1 \<noteq> 0 then r + 1 else r) - l)) m2))
      else Some m)"

declare build_levels.simps [code]

definition build :: "('d, 'h) FixedSizeTree \<Rightarrow> 'd list \<Rightarrow> ('d, 'h) FixedSizeTree option" where
  "build t ccont =
     (if LEAFS_N t = 1
      then (case ccont of
              [] \<Rightarrow> None
            | x # _ \<Rightarrow>
               map_option (\<lambda>m. t\<lparr>m_data := m\<rparr>) (elem_put (m_data t) 0 (node_hash t [Data x])))
      else (case fill_leaves t ccont 0 (m_data t) of
              None \<Rightarrow> None
            | Some m1 \<Rightarrow>
               map_option (\<lambda>m. t\<lparr>m_data := m\<rparr>) (build_levels t 0 0 (LEAFS_N t) m1)))"

subsection \<open>\<open>root\<close>, \<open>get_proof\<close>, \<open>verify_proof\<close>\<close>

definition root :: "('d, 'h) FixedSizeTree \<Rightarrow> 'h option" where
  "root t = elem_at (m_data t) (SIZE t - 1)"

text \<open>
  \<open>get_proof\<close> returns the pair of the leaf hash and the proof array. \<open>Hash{}\<close> is the zero of
  the hash type. A result \<open>None\<close> of \<open>get_proof\<close> or of \<open>verify_proof\<close> means that the call has
  no result: an access outside an array, or an instantiation of the function template that
  is ill-formed.
\<close>

datatype 'h proof_result = LeafAndProof 'h "('h \<times> bool) list"

function get_proof_loop ::
    "('d, 'h) FixedSizeTree \<Rightarrow> u64 \<Rightarrow> u64 \<Rightarrow> u64 \<Rightarrow> ('h \<times> bool) list
      \<Rightarrow> ('h \<times> bool) list option" where
  "get_proof_loop t hgt i idx pf =
     (if i < hgt
      then (case elem_at (m_data t)
                   (fst (get_layer t (hgt - i)) + (idx + (if idx AND 1 \<noteq> 0 then - 1 else 1))) of
              None \<Rightarrow> None
            | Some h \<Rightarrow>
               (case elem_put pf i (h, idx AND 1 \<noteq> 0) of
                  None \<Rightarrow> None
                | Some pf' \<Rightarrow> get_proof_loop t hgt (i + 1) (drop_bit 1 idx) pf'))
      else Some pf)"
  by pat_completeness auto
termination
proof (relation "measure (\<lambda>(t, hgt, i, idx, pf). unat hgt - unat i)")
  show "wf (measure (\<lambda>(t, hgt, i, idx, pf). unat hgt - unat i))" by simp
next
  fix t :: "('d, 'h) FixedSizeTree" and hgt i idx :: u64 and pf pf' :: "('h \<times> bool) list"
  assume "i < hgt"
  then have "unat i < unat (hgt)" by (simp add: word_less_nat_alt)
  moreover have "unat (hgt) < 2 ^ 64" using unsigned_less [of "hgt"] by simp
  ultimately have "unat (i + 1) = Suc (unat i) \<and> unat i < unat (hgt)"
    by (simp add: unat_word_ariths)
  then show "((t, hgt, i + 1, drop_bit 1 idx, pf'), (t, hgt, i, idx, pf)) \<in> measure (\<lambda>(t, hgt, i, idx, pf). unat hgt - unat i)"
    by auto
qed

declare get_proof_loop.simps [simp del]

text \<open>
  \<open>get_proof\<close> at \<open>LEAFS_N == 1\<close>: the statement under \<open>if constexpr (LEAFS_N == 1)\<close> returns
  the proof array, and the return statements after it, which are not under an \<open>else\<close> and
  so are instantiated as well, return a pair. The return type of the function is deduced,
  the two deductions differ and the instantiation is ill-formed: there is no result. For
  every other \<open>LEAFS_N\<close> the statement is discarded.
\<close>

definition get_proof ::
    "('d, 'h::zero) FixedSizeTree \<Rightarrow> 'd \<Rightarrow> 'h proof_result option" where
  "get_proof t data =
     (let hgt = height (LEAFS_N t);
          proof = replicate (unat hgt + 1) (0, False)
      in if LEAFS_N t = 1
         then None
         else (case find_leaf t [Data data] of
                 None \<Rightarrow> None
               | Some idx \<Rightarrow>
                  if idx = - 1 then Some (LeafAndProof 0 proof)
                  else (case elem_at (m_data t) idx of
                          None \<Rightarrow> None
                        | Some initial \<Rightarrow>
                           (case get_proof_loop t hgt 0 idx proof of
                              None \<Rightarrow> None
                            | Some proof' \<Rightarrow>
                               (case root t of
                                  None \<Rightarrow> None
                                | Some rt \<Rightarrow>
                                   map_option (LeafAndProof initial)
                                     (elem_put proof' (word_of_nat (length proof') - 1)
                                        (rt, False)))))))"

text \<open>
  \<open>verify_proof\<close> takes the proof as \<open>auto&&\<close>, an object of any type, and uses three
  operations of it: \<open>size()\<close>, \<open>operator[]\<close> in the loop, and the call operator in
  \<open>proof(proof.size() - 1).first\<close>, which reads the asserted root. A proof object is modelled
  by its entries, which \<open>size()\<close> and \<open>operator[]\<close> show, and by its call operator, absent
  when the type has none. \<open>std::array\<close>, the type of the proofs that \<open>get_proof\<close> returns, and
  \<open>std::vector\<close> have no call operator: for them the instantiation of \<open>verify_proof\<close> is
  ill-formed and there is no result. The counter \<open>i\<close> of the loop is an \<open>int\<close>, compared
  after conversion to \<open>size_t\<close>; incrementing it past \<open>INT_MAX\<close> has no defined result.
\<close>

record 'h proof_object =
  entries :: "('h \<times> bool) list"
  call_operator :: "(u64 \<Rightarrow> ('h \<times> bool) option) option"

definition std_array :: "('h \<times> bool) list \<Rightarrow> 'h proof_object" where
  "std_array xs = \<lparr>entries = xs, call_operator = None\<rparr>"

function verify_proof_loop ::
    "('d, 'h, 'z) TreeBase_scheme \<Rightarrow> ('h \<times> bool) list \<Rightarrow> nat \<Rightarrow> 'h \<Rightarrow> 'h option" where
  "verify_proof_loop tb proof i curr_hash =
     (if (word_of_nat i :: u64) < word_of_nat (length proof) - 1
      then (case elem_at proof (word_of_nat i) of
              None \<Rightarrow> None
            | Some p \<Rightarrow>
               if 2147483647 \<le> i then None
               else verify_proof_loop tb proof (i + 1)
                      (if snd p then node_hash tb [Hashed (fst p), Hashed curr_hash]
                       else node_hash tb [Hashed curr_hash, Hashed (fst p)]))
      else Some curr_hash)"
  by pat_completeness auto
termination
  by (relation "measure (\<lambda>(tb, proof, i, curr_hash). 2147483647 - i)") auto

declare verify_proof_loop.simps [simp del]

definition verify_proof ::
    "('d, 'h, 'z) TreeBase_scheme \<Rightarrow> 'd \<Rightarrow> 'h proof_object \<Rightarrow> bool option" where
  "verify_proof tb data proof =
     (case call_operator proof of
        None \<Rightarrow> None
      | Some call \<Rightarrow>
         (case call (word_of_nat (length (entries proof)) - 1) of
            None \<Rightarrow> None
          | Some last_entry \<Rightarrow>
             map_option (\<lambda>curr_hash. curr_hash = fst last_entry)
               (verify_proof_loop tb (entries proof) 0 (leaf_hash tb [Data data]))))"

section \<open>The hasher of the repository's tests\<close>

text \<open>
  \<open>Hasher\<close> of the test file: \<open>hash.v = (hash.v * 31) + x\<close> over the buffer, \<open>x\<close> a
  (signed) \<open>char\<close>, \<open>hash.v\<close> a \<open>uint64_t\<close>. Its \<open>value_type\<close> is the eight bytes of
  \<open>hash.v\<close>; the model keeps the 64-bit value and lists its bytes on demand.
\<close>

definition char_value :: "char \<Rightarrow> u64" where
  "char_value x = scast (of_char x :: 8 word)"

definition Hasher :: "bytes \<Rightarrow> u64" where
  "Hasher cont = foldl (\<lambda>h x. h * 31 + char_value x) 0 cont"

definition hash_bytes :: "u64 \<Rightarrow> bytes" where
  "hash_bytes v =
     [char_of (unat v), char_of (unat (drop_bit 8 v)),
      char_of (unat (drop_bit 16 v)), char_of (unat (drop_bit 24 v)),
      char_of (unat (drop_bit 32 v)), char_of (unat (drop_bit 40 v)),
      char_of (unat (drop_bit 48 v)), char_of (unat (drop_bit 56 v))]"

definition test_tree :: "u64 \<Rightarrow> u64 list \<Rightarrow> (string, u64) FixedSizeTree" where
  "test_tree n store =
     \<lparr>m_hash = Hasher, m_concat = UnifiedConcatenator (\<lambda>s. s) hash_bytes,
      LEAFS_N = n, m_data = store\<rparr>"

section \<open>The closed form of the height, in the words of the specification\<close>

fun floor_log2 :: "nat \<Rightarrow> nat" where
  "floor_log2 n = (if n < 2 then 0 else Suc (floor_log2 (n div 2)))"

declare floor_log2.simps [simp del]

definition height_closed_form :: "nat \<Rightarrow> nat" where
  "height_closed_form n =
     (if n \<le> 1 then 0 else floor_log2 n + (if n = 2 ^ floor_log2 n then 0 else 1))"

section \<open>Auxiliary definitions for the statements\<close>

text \<open>One step of the fold of \<open>verify_proof\<close>: the parent of the running hash and a sibling.\<close>

definition ancestor_hash :: "('d, 'h, 'z) TreeBase_scheme \<Rightarrow> 'h \<Rightarrow> 'h \<times> bool \<Rightarrow> 'h" where
  "ancestor_hash tb curr_hash p =
     (if snd p then node_hash tb [Hashed (fst p), Hashed curr_hash]
      else node_hash tb [Hashed curr_hash, Hashed (fst p)])"

text \<open>
  A proof object whose call operator reads the entry at the index given, as \<open>operator[]\<close>
  does.
\<close>

definition indexed_by_call :: "('h \<times> bool) list \<Rightarrow> 'h proof_object" where
  "indexed_by_call xs = \<lparr>entries = xs, call_operator = Some (elem_at xs)\<rparr>"

text \<open>
  A hasher with a digest of four bytes that is injective on the salt prefix: the digest is
  the first four bytes of the buffer.
\<close>

fun salt_digest :: "bytes \<Rightarrow> char \<times> char \<times> char \<times> char" where
  "salt_digest (a # b # c # d # rest) = (a, b, c, d)"
| "salt_digest rest = (CHR 0x00, CHR 0x00, CHR 0x00, CHR 0x00)"

text \<open>
  The number of times a count above 1 is halved, rounding up, before it reaches 1: the
  number of rounds of the loop of \<open>calc_tree_size\<close>.
\<close>

fun halvings :: "nat \<Rightarrow> nat" where
  "halvings n = (if n \<le> 1 then 0 else Suc (halvings ((n + 1) div 2)))"

declare halvings.simps [simp del]

text \<open>
  The layout of the flattened storage in natural numbers, for a tree of \<open>c\<close> leaves:
  \<open>lvl_count c k\<close> is the number of hashes computed at level \<open>k\<close> above the leaves and
  \<open>lvl_start c k\<close> the index where that level starts, each level below it taking its
  count rounded up to even. \<open>sibling j\<close> is the other index of the pair that holds \<open>j\<close>.
\<close>

fun lvl_count :: "nat \<Rightarrow> nat \<Rightarrow> nat" where
  "lvl_count c 0 = c"
| "lvl_count c (Suc k) = lvl_count ((c + 1) div 2) k"

fun lvl_start :: "nat \<Rightarrow> nat \<Rightarrow> nat" where
  "lvl_start c 0 = 0"
| "lvl_start c (Suc k) = (c + c mod 2) + lvl_start ((c + 1) div 2) k"

definition sibling :: "nat \<Rightarrow> nat" where
  "sibling j = (if odd j then j - 1 else j + 1)"

lemmas eval_defs = build_def elem_put_def elem_at_def test_tree_def verify_def find_leaf_def
      find_leaf_loop.simps node_hash_def leaf_hash_def Hasher_def UnifiedConcatenator_def
      int_bytes_def node_salt_def leaf_salt_def char_value_def char_of_def bit_Suc_0_iff
      get_proof_def verify_proof_def verify_proof_loop.simps std_array_def indexed_by_call_def
      height_def ilog2_def builtin_clzll_def builtin_popcount_def bit_width.simps one_bits.simps
      hash_bytes_def build_levels.simps build_pairs.simps fill_leaves.simps

section \<open>Word arithmetic\<close>

lemma unat_of_nat64: "n < 2 ^ 64 \<Longrightarrow> unat (word_of_nat n :: u64) = n"
  by (simp add: unat_of_nat)

lemma unat_of_nat_pred64:
  "0 < n \<Longrightarrow> n < 2 ^ 64 \<Longrightarrow> unat (word_of_nat n - 1 :: u64) = n - 1"
proof -
  assume n: "0 < n" "n < 2 ^ 64"
  then have "(word_of_nat n - 1 :: u64) = word_of_nat (n - 1)" by simp
  moreover have "unat (word_of_nat (n - 1) :: u64) = n - 1"
    using n by (simp add: unat_of_nat del: of_nat_diff)
  ultimately show ?thesis by (simp only:)
qed

lemma unat_succ_less: "(i :: u64) < b \<Longrightarrow> unat (i + 1) = Suc (unat i)"
proof -
  assume "i < b"
  then have "unat i < unat b" by (simp add: word_less_nat_alt)
  moreover have "unat b < 2 ^ 64" using unsigned_less [of b] by simp
  ultimately show ?thesis by (simp add: unat_word_ariths)
qed

section \<open>Construction\<close>

text \<open>
  C7. A tree declared with one leaf and built from the single item \<open>"one"\<close> stores exactly
  one hash, the node-salted hash of the item itself, and \<open>root()\<close> returns it: the hashed
  buffer is the concatenation of the node salt \<open>0x01\<close> and the item, so the leaf salt is
  never applied. This holds for every hasher, every concatenator and every prior content of
  the storage.
\<close>

theorem single_node_root:
  "build \<lparr>m_hash = H, m_concat = C, LEAFS_N = 1, m_data = [a]\<rparr> [''one'']
     = Some \<lparr>m_hash = H, m_concat = C, LEAFS_N = 1,
             m_data = [H (C [Salt 0x01, Data ''one''])]\<rparr>
   \<and> Option.bind (build \<lparr>m_hash = H, m_concat = C, LEAFS_N = 1, m_data = [a]\<rparr> [''one'']) root
     = Some (node_hash \<lparr>m_hash = H, m_concat = C\<rparr> [Data ''one''])"
  by (simp add: build_def elem_put_def elem_at_def node_hash_def node_salt_def root_def SIZE_def
      calc_tree_size_def calc_tree_size_loop.simps)

text \<open>
  C2. A tree declared with five leaves and built from
  \<open>["first","second","third","fourth","fifth"]\<close> stores, in this order: the five leaf
  hashes followed by a copy of the fifth; four node hashes of the leaf pairs (0,1), (2,3),
  (4,5) and again (4,5), the fourth being the copy of the third; two node hashes of the
  pairs of the level below; and the root, the node hash of those two. The height is 3. This
  holds for every hasher, every concatenator and every prior content of the thirteen slots.
\<close>

theorem five_leaves_layout:
  "(let tb = \<lparr>m_hash = H, m_concat = C\<rparr>;
        lh = (\<lambda>x. leaf_hash tb [Data x]);
        nh = (\<lambda>a b. node_hash tb [Hashed a, Hashed b]);
        l3 = [lh ''first'', lh ''second'', lh ''third'', lh ''fourth'', lh ''fifth'', lh ''fifth''];
        l2 = [nh (l3 ! 0) (l3 ! 1), nh (l3 ! 2) (l3 ! 3), nh (l3 ! 4) (l3 ! 5), nh (l3 ! 4) (l3 ! 5)];
        l1 = [nh (l2 ! 0) (l2 ! 1), nh (l2 ! 2) (l2 ! 3)];
        built = \<lparr>m_hash = H, m_concat = C, LEAFS_N = 5, m_data = l3 @ l2 @ l1 @ [nh (l1 ! 0) (l1 ! 1)]\<rparr>
    in build \<lparr>m_hash = H, m_concat = C, LEAFS_N = 5,
               m_data = [a0, a1, a2, a3, a4, a5, a6, a7, a8, a9, a10, a11, a12]\<rparr>
          [''first'', ''second'', ''third'', ''fourth'', ''fifth''] = Some built
       \<and> root built = Some (nh (l1 ! 0) (l1 ! 1))
       \<and> tree_height built = 3)"
  by (simp add: build_def elem_put_def elem_at_def node_hash_def leaf_hash_def node_salt_def
      leaf_salt_def build_levels.simps build_pairs.simps Let_def root_def SIZE_def
      calc_tree_size_def calc_tree_size_loop.simps tree_height_def height_def ilog2_def
      builtin_clzll_def builtin_popcount_def bit_width.simps one_bits.simps)

section \<open>Salted hashing\<close>

lemma foldl_append_arg:
  "foldl (append_arg db hb) acc args = acc @ foldl (append_arg db hb) [] args"
proof (induction args arbitrary: acc)
  case Nil
  show ?case by simp
next
  case (Cons x xs)
  have "foldl (append_arg db hb) acc (x # xs) = foldl (append_arg db hb) (append_arg db hb acc x) xs"
    by simp
  also have "\<dots> = append_arg db hb acc x @ foldl (append_arg db hb) [] xs"
    by (rule Cons.IH)
  also have "append_arg db hb acc x = acc @ append_arg db hb [] x"
    by (cases x) simp_all
  also have "(acc @ append_arg db hb [] x) @ foldl (append_arg db hb) [] xs
      = acc @ foldl (append_arg db hb) (append_arg db hb [] x) xs"
    using Cons.IH [of "append_arg db hb [] x"] by simp
  finally show ?case by simp
qed

lemma UnifiedConcatenator_Cons:
  "UnifiedConcatenator db hb (x # args) = append_arg db hb [] x @ UnifiedConcatenator db hb args"
  unfolding UnifiedConcatenator_def
  using foldl_append_arg [of db hb "append_arg db hb [] x" args] by simp

lemma salt_bytes: "int_bytes leaf_salt = [CHR 0x00, CHR 0x00, CHR 0x00, CHR 0x00]"
  "int_bytes node_salt = [CHR 0x01, CHR 0x00, CHR 0x00, CHR 0x00]"
  by (simp_all add: int_bytes_def leaf_salt_def node_salt_def char_of_def bit_Suc_0_iff)

lemma Hasher_append: "Hasher (a @ p) = Hasher a * 31 ^ length p + Hasher p"
proof (induction p rule: rev_induct)
  case Nil
  show ?case by (simp add: Hasher_def)
next
  case (snoc x xs)
  have "Hasher (a @ xs @ [x]) = Hasher (a @ xs) * 31 + char_value x"
    by (simp add: Hasher_def)
  also have "\<dots> = (Hasher a * 31 ^ length xs + Hasher xs) * 31 + char_value x"
    by (simp only: snoc.IH)
  also have "\<dots> = Hasher a * 31 ^ length (xs @ [x]) + (Hasher xs * 31 + char_value x)"
    by (simp add: algebra_simps)
  also have "Hasher xs * 31 + char_value x = Hasher (xs @ [x])"
    by (simp add: Hasher_def)
  finally show ?case .
qed

lemma Hasher_salts:
  "Hasher (int_bytes leaf_salt) = 0" "Hasher (int_bytes node_salt) = 29791"
  by (simp_all add: Hasher_def int_bytes_def leaf_salt_def node_salt_def char_value_def
      char_of_def bit_Suc_0_iff)

lemma Hasher_separates_salts:
  "Hasher (int_bytes leaf_salt @ p) \<noteq> Hasher (int_bytes node_salt @ p)"
proof
  assume "Hasher (int_bytes leaf_salt @ p) = Hasher (int_bytes node_salt @ p)"
  then have "(29791 :: u64) * 31 ^ length p = 0"
    by (simp add: Hasher_append Hasher_salts)
  moreover have "odd ((29791 :: u64) * 31 ^ length p)" by simp
  ultimately show False by (metis even_zero)
qed

lemma salt_digest_prefix:
  assumes "length x = 4" "length y = 4" "salt_digest (x @ p) = salt_digest (y @ p)"
  shows "x = y"
proof -
  obtain a b c d where x: "x = [a, b, c, d]"
    using assms(1) by (auto simp: length_Suc_conv numeral_eq_Suc)
  obtain a' b' c' d' where y: "y = [a', b', c', d']"
    using assms(2) by (auto simp: length_Suc_conv numeral_eq_Suc)
  show ?thesis using assms(3) unfolding x y by simp
qed

lemma length_int_bytes: "length (int_bytes s) = 4"
  by (simp add: int_bytes_def)

text \<open>
  C5. \<open>leaf_hash\<close> hashes the concatenation of the leaf salt and its arguments, \<open>node_hash\<close>
  the concatenation of the node salt and the two child hashes, left then right. With the
  default concatenator the hashed buffers are the four salt bytes followed by the bytes of
  the data, respectively of the left and of the right child. The two salts differ, as do
  their bytes. For a hasher that is injective on the salt prefix (two buffers that differ
  only in their first four bytes have different hashes) the leaf hash and the node hash of
  the same payload differ; for the hasher of the tests they differ as well.
\<close>

theorem salted_hash_domains:
  "leaf_hash tb args = m_hash tb (m_concat tb (Salt leaf_salt # args))
   \<and> node_hash tb [Hashed l, Hashed r] = m_hash tb (m_concat tb [Salt node_salt, Hashed l, Hashed r])
   \<and> leaf_hash \<lparr>m_hash = H, m_concat = UnifiedConcatenator db hb\<rparr> [Data d]
        = H (int_bytes leaf_salt @ db d)
   \<and> node_hash \<lparr>m_hash = H, m_concat = UnifiedConcatenator db hb\<rparr> [Hashed l, Hashed r]
        = H (int_bytes node_salt @ hb l @ hb r)
   \<and> leaf_salt \<noteq> node_salt
   \<and> int_bytes leaf_salt \<noteq> int_bytes node_salt
   \<and> ((\<forall>x y p. length x = 4 \<and> length y = 4 \<and> H (x @ p) = H (y @ p) \<longrightarrow> x = y) \<longrightarrow>
        leaf_hash \<lparr>m_hash = H, m_concat = UnifiedConcatenator db hb\<rparr> payload
          \<noteq> node_hash \<lparr>m_hash = H, m_concat = UnifiedConcatenator db hb\<rparr> payload)
   \<and> leaf_hash \<lparr>m_hash = Hasher, m_concat = UnifiedConcatenator db hb'\<rparr> payload'
        \<noteq> node_hash \<lparr>m_hash = Hasher, m_concat = UnifiedConcatenator db hb'\<rparr> payload'"
proof -
  have ne: "int_bytes leaf_salt \<noteq> int_bytes node_salt" by (simp add: salt_bytes)
  have sep: "H (int_bytes leaf_salt @ UnifiedConcatenator db hb payload)
          \<noteq> H (int_bytes node_salt @ UnifiedConcatenator db hb payload)"
    if inj: "\<forall>x y p. length x = 4 \<and> length y = 4 \<and> H (x @ p) = H (y @ p) \<longrightarrow> x = y"
  proof
    assume "H (int_bytes leaf_salt @ UnifiedConcatenator db hb payload)
          = H (int_bytes node_salt @ UnifiedConcatenator db hb payload)"
    then have "int_bytes leaf_salt = int_bytes node_salt"
      using inj length_int_bytes by blast
    then show False using ne by simp
  qed
  have c7: "(\<forall>x y p. length x = 4 \<and> length y = 4 \<and> H (x @ p) = H (y @ p) \<longrightarrow> x = y) \<longrightarrow>
        leaf_hash \<lparr>m_hash = H, m_concat = UnifiedConcatenator db hb\<rparr> payload
          \<noteq> node_hash \<lparr>m_hash = H, m_concat = UnifiedConcatenator db hb\<rparr> payload"
    using sep by (simp add: leaf_hash_def node_hash_def UnifiedConcatenator_Cons)
  have c8: "leaf_hash \<lparr>m_hash = Hasher, m_concat = UnifiedConcatenator db hb'\<rparr> payload'
        \<noteq> node_hash \<lparr>m_hash = Hasher, m_concat = UnifiedConcatenator db hb'\<rparr> payload'"
    using Hasher_separates_salts [of "UnifiedConcatenator db hb' payload'"]
    by (simp add: leaf_hash_def node_hash_def UnifiedConcatenator_Cons)
  have c5: "leaf_salt \<noteq> node_salt" by (simp add: leaf_salt_def node_salt_def)
  have c3: "leaf_hash \<lparr>m_hash = H, m_concat = UnifiedConcatenator db hb\<rparr> [Data d]
        = H (int_bytes leaf_salt @ db d)"
    by (simp add: leaf_hash_def UnifiedConcatenator_def)
  have c4: "node_hash \<lparr>m_hash = H, m_concat = UnifiedConcatenator db hb\<rparr> [Hashed l, Hashed r]
        = H (int_bytes node_salt @ hb l @ hb r)"
    by (simp add: node_hash_def UnifiedConcatenator_def)
  have c1: "leaf_hash tb args = m_hash tb (m_concat tb (Salt leaf_salt # args))"
    by (simp add: leaf_hash_def)
  have c2: "node_hash tb [Hashed l, Hashed r]
      = m_hash tb (m_concat tb [Salt node_salt, Hashed l, Hashed r])"
    by (simp add: node_hash_def)
  show ?thesis
    by (intro conjI) (rule c1 c2 c3 c4 c5 ne c7 c8)+
qed

theorem salted_hash_domains_witness:
  "leaf_hash \<lparr>m_hash = salt_digest, m_concat = UnifiedConcatenator (\<lambda>s. s) (\<lambda>h. [])\<rparr>
        [Data ''one'']
        = (CHR 0x00, CHR 0x00, CHR 0x00, CHR 0x00)
   \<and> leaf_hash \<lparr>m_hash = salt_digest, m_concat = UnifiedConcatenator (\<lambda>s. s) (\<lambda>h. [])\<rparr>
        [Data ''one'']
        \<noteq> node_hash \<lparr>m_hash = salt_digest, m_concat = UnifiedConcatenator (\<lambda>s. s) (\<lambda>h. [])\<rparr>
        [Data ''one'']"
proof -
  let ?tb = "\<lparr>m_hash = salt_digest, m_concat = UnifiedConcatenator (\<lambda>s. s) (\<lambda>h. [])\<rparr>"
  have h: "\<forall>x y p. length x = 4 \<and> length y = 4 \<and> salt_digest (x @ p) = salt_digest (y @ p)
       \<longrightarrow> x = y"
    using salt_digest_prefix by blast
  have v: "leaf_hash ?tb [Data ''one''] = (CHR 0x00, CHR 0x00, CHR 0x00, CHR 0x00)"
    by (simp add: leaf_hash_def UnifiedConcatenator_def salt_bytes)
  have "(\<forall>x y p. length x = 4 \<and> length y = 4 \<and> salt_digest (x @ p) = salt_digest (y @ p)
       \<longrightarrow> x = y) \<longrightarrow> leaf_hash ?tb [Data ''one''] \<noteq> node_hash ?tb [Data ''one'']"
    using salted_hash_domains [where H = salt_digest and db = "\<lambda>s. s" and hb = "\<lambda>h. []"
      and payload = "[Data ''one'']"]
    by blast
  then have "leaf_hash ?tb [Data ''one''] \<noteq> node_hash ?tb [Data ''one'']"
    using h by blast
  then show ?thesis using v by blast
qed

section \<open>Size and height\<close>

text \<open>
  C4. The height is meant to be 0 for 0 or 1 leaves and otherwise \<open>floor(log2 N)\<close>, plus 1
  when \<open>N\<close> is not a power of two. \<open>height\<close> passes the 64-bit leaf count to the 32-bit
  \<open>__builtin_popcount\<close>, so for \<open>N = 2^32\<close>, a power of two whose low 32 bits are all zero,
  it returns 33 where the closed form gives 32, and for \<open>N = 2^32 + 1\<close> it returns 32 where
  the closed form gives 33.
\<close>

theorem height_at_two_pow_32:
  "height 4294967296 = 33 \<and> height_closed_form 4294967296 = 32
   \<and> height 4294967297 = 32 \<and> height_closed_form 4294967297 = 33"
  by (simp add: height_def ilog2_def builtin_clzll_def builtin_popcount_def bit_width.simps
      one_bits.simps height_closed_form_def floor_log2.simps)

lemma bit_width_bound: "n < 2 ^ k \<Longrightarrow> bit_width n \<le> k"
proof (induction k arbitrary: n)
  case 0
  then show ?case by (simp add: bit_width.simps)
next
  case (Suc k)
  show ?case
  proof (cases "n = 0")
    case True
    then show ?thesis by (simp add: bit_width.simps)
  next
    case False
    have "n div 2 < 2 ^ k" using Suc.prems by simp
    then have "bit_width (n div 2) \<le> k" by (rule Suc.IH)
    with False show ?thesis by (subst bit_width.simps) simp
  qed
qed

lemma bit_width_pos: "0 < n \<Longrightarrow> 0 < bit_width n"
  by (subst bit_width.simps) simp

lemma unat_ilog2: 
  assumes "x \<noteq> 0" 
  shows "unat (ilog2 x) = bit_width (unat x) - 1"
proof -
  have "unat x < 2 ^ 64" using unsigned_less [of x] by simp
  then have le: "bit_width (unat x) \<le> 64" by (rule bit_width_bound)
  have "0 < unat x" using assms by (simp add: unat_gt_0)
  then have pos: "0 < bit_width (unat x)" by (rule bit_width_pos)
  have "63 - int (64 - bit_width (unat x)) = int (bit_width (unat x) - 1)"
    using le pos by simp
  then have "ilog2 x = word_of_nat (bit_width (unat x) - 1)"
    using assms by (simp add: ilog2_def builtin_clzll_def)
  moreover have "bit_width (unat x) - 1 < 2 ^ 64" using le by simp
  ultimately show ?thesis by (simp add: unat_of_nat64)
qed

lemma unat_ilog2_le: "x \<noteq> 0 \<Longrightarrow> unat (ilog2 x) \<le> 63"
proof -
  assume x: "x \<noteq> 0"
  have "unat x < 2 ^ 64" using unsigned_less [of x] by simp
  then have "bit_width (unat x) \<le> 64" by (rule bit_width_bound)
  then show ?thesis using unat_ilog2 [OF x] by simp
qed

lemma unat_height_le: "unat (height n) \<le> 64"
proof (cases "n = 0")
  case True
  then show ?thesis by (simp add: height_def)
next
  case False
  have "unat (ilog2 n + 1) \<le> unat (ilog2 n) + 1" "unat (ilog2 n + 0) \<le> unat (ilog2 n) + 1"
    by (simp_all add: unat_word_ariths le_SucI mod_le_divisor)
  then have "unat (height n) \<le> unat (ilog2 n) + 1"
    using False unfolding height_def by (simp split: if_splits)
  with unat_ilog2_le [OF False] show ?thesis by simp
qed

lemma halvings_le: "m \<le> 2 ^ k \<Longrightarrow> halvings m \<le> k"
proof (induction k arbitrary: m)
  case 0
  then show ?case by (simp add: halvings.simps)
next
  case (Suc k)
  show ?case
  proof (cases "m \<le> 1")
    case True
    then show ?thesis by (simp add: halvings.simps)
  next
    case False
    have "(m + 1) div 2 \<le> 2 ^ k" using Suc.prems by simp
    then have "halvings ((m + 1) div 2) \<le> k" by (rule Suc.IH)
    with False show ?thesis by (subst halvings.simps) simp
  qed
qed

lemma halvings_gt: "2 ^ k < m \<Longrightarrow> k < halvings m"
proof (induction k arbitrary: m)
  case 0
  then show ?case by (subst halvings.simps) simp
next
  case (Suc k)
  then have "2 * 2 ^ k < m" by simp
  moreover have "(1::nat) \<le> 2 ^ k" by simp
  ultimately have m: "\<not> m \<le> 1" "2 ^ k < (m + 1) div 2" by linarith+
  from Suc.IH [OF m(2)] m(1) show ?case by (subst halvings.simps) simp
qed

lemma bit_width_bounds: "0 < q \<Longrightarrow> 2 ^ (bit_width q - 1) \<le> q \<and> q < 2 ^ bit_width q"
proof (induction q rule: bit_width.induct)
  case (1 n)
  show ?case
  proof (cases "n div 2 = 0")
    case True
    with 1 have "n = 1" by (simp add: div_eq_0_iff) 
    then show ?thesis by (simp add: bit_width.simps)
  next
    case False
    then have "2 ^ (bit_width (n div 2) - 1) \<le> n div 2 \<and> n div 2 < 2 ^ bit_width (n div 2)"
      using 1 by simp
    moreover have "0 < bit_width (n div 2)" using False by (simp add: bit_width_pos)
    moreover have "bit_width n = Suc (bit_width (n div 2))" using 1 by (subst bit_width.simps) simp
    ultimately show ?thesis
      by (cases "bit_width (n div 2)") (simp, simp, linarith) 
  qed
qed

lemma one_bits_eq_0: "one_bits x = 0 \<longleftrightarrow> x = 0"
proof (induction x rule: one_bits.induct)
  case (1 n)
  show ?case
  proof (cases "n = 0")
    case True
    then show ?thesis by (simp add: one_bits.simps)
  next
    case False
    then have "one_bits n = n mod 2 + one_bits (n div 2)" by (subst one_bits.simps) simp
    with 1 False show ?thesis by (cases "n mod 2 = 0") (auto simp: div_eq_0_iff)
  qed
qed

lemma one_bits_pow2: "one_bits (2 ^ k) = 1"
proof (induction k)
  case 0
  show ?case by (simp add: one_bits.simps)
next
  case (Suc k)
  then show ?case by (subst one_bits.simps) simp
qed

lemma one_bits_eq_1: "one_bits x = 1 \<Longrightarrow> \<exists>k. x = 2 ^ k"
proof (induction x rule: one_bits.induct)
  case (1 n)
  have n: "n \<noteq> 0"
  proof
    assume "n = 0"
    then have "one_bits n = 0" by (simp add: one_bits_eq_0)
    with "1.prems" show False by simp
  qed
  then have eq: "one_bits n = n mod 2 + one_bits (n div 2)" by (subst one_bits.simps) simp
  note p = "1.prems" and ih = "1.IH" [OF n]
  show ?case
  proof (cases "n mod 2 = 0")
    case True
    with eq p have "one_bits (n div 2) = 1" by simp
    with ih obtain k where "n div 2 = 2 ^ k" by auto
    with True have "n = 2 ^ Suc k" by auto
    then show ?thesis by blast
  next
    case False
    then have "n mod 2 = 1" by simp
    with eq p have "one_bits (n div 2) = 0" by simp
    then have "n div 2 = 0" by (simp add: one_bits_eq_0)
    with False have "n = 2 ^ 0" by (simp add: div_eq_0_iff) 
    then show ?thesis by blast
  qed
qed

lemma height_formula_halvings:
  assumes "0 < m"
  shows "(bit_width m - 1) + (if int (one_bits m) - 1 \<noteq> 0 then 1 else 0) = halvings m"
proof (cases "one_bits m = 1")
  case True
  then obtain k where k: "m = 2 ^ k" using one_bits_eq_1 by blast
  have b: "2 ^ (bit_width m - 1) \<le> m \<and> m < 2 ^ bit_width m" using assms by (rule bit_width_bounds)
  have "bit_width m - 1 \<le> k" "k < bit_width m"
    using b unfolding k by (simp_all add: power_increasing_iff power_strict_increasing_iff) 
  then have bw: "bit_width m - 1 = k" by simp
  have "halvings m \<le> k" unfolding k by (rule halvings_le) simp
  moreover have "k \<le> halvings m"
  proof (cases k)
    case 0
    then show ?thesis by simp
  next
    case (Suc j)
    have "(2::nat) ^ j < 2 ^ k" using Suc by simp
    then have "j < halvings m" unfolding k by (rule halvings_gt)
    with Suc show ?thesis by simp
  qed
  ultimately show ?thesis using True bw by simp
next
  case False
  have b: "2 ^ (bit_width m - 1) \<le> m" "m < 2 ^ bit_width m"
    using bit_width_bounds [OF assms] by simp_all
  have pos: "0 < bit_width m" using assms by (rule bit_width_pos)
  have "m \<noteq> 2 ^ (bit_width m - 1)" using False one_bits_pow2 by metis
  with b have "2 ^ (bit_width m - 1) < m" by simp
  then have "bit_width m - 1 < halvings m" by (rule halvings_gt)
  moreover have "halvings m \<le> bit_width m" using b(2) by (intro halvings_le) simp
  ultimately have "halvings m = bit_width m" using pos by simp
  with False pos show ?thesis by simp
qed

lemma unat_height_halvings:
  assumes "unat n < 2 ^ 32"
  shows "unat (height n) = halvings (unat n)"
proof (cases "n = 0")
  case True
  then show ?thesis by (simp add: height_def halvings.simps)
next
  case False
  then have pos: "0 < unat n" by (simp add: unat_gt_0)
  have uc: "unat (ucast n :: 32 word) = unat n"
    using assms by (simp add: unsigned_ucast_eq take_bit_nat_eq_self)
  have il: "unat (ilog2 n) = bit_width (unat n) - 1" using False by (rule unat_ilog2)
  have le: "unat (ilog2 n) \<le> 63" using False by (rule unat_ilog2_le)
  have "unat (height n)
      = unat (ilog2 n) + (if int (one_bits (unat n)) - 1 \<noteq> 0 then 1 else 0)"
    using False le by (simp add: height_def builtin_popcount_def uc unat_word_ariths)
  then show ?thesis using height_formula_halvings [OF pos] il by simp
qed

lemma bit_width_floor_log2: "0 < n \<Longrightarrow> bit_width n = Suc (floor_log2 n)"
proof (induction n rule: floor_log2.induct)
  case (1 n)
  show ?case
  proof (cases "n < 2")
    case True
    with 1 have "n = 1" by simp
    then show ?thesis by (simp add: bit_width.simps floor_log2.simps)
  next
    case False
    then have "bit_width (n div 2) = Suc (floor_log2 (n div 2))" using 1 by simp
    moreover have "bit_width n = Suc (bit_width (n div 2))"
      using False by (subst bit_width.simps) simp
    moreover have "floor_log2 n = Suc (floor_log2 (n div 2))"
      using False by (subst floor_log2.simps) simp
    ultimately show ?thesis by simp
  qed
qed

lemma height_closed_form_halvings: "height_closed_form m = halvings m"
proof (cases "m \<le> 1")
  case True
  then show ?thesis by (simp add: height_closed_form_def halvings.simps)
next
  case False
  then have pos: "0 < m" by simp
  have fl: "floor_log2 m = bit_width m - 1" using bit_width_floor_log2 [OF pos] by simp
  have b: "2 ^ (bit_width m - 1) \<le> m" "m < 2 ^ bit_width m"
    using bit_width_bounds [OF pos] by simp_all
  have "one_bits m = 1 \<longleftrightarrow> m = 2 ^ (bit_width m - 1)"
  proof
    assume "one_bits m = 1"
    then obtain k where k: "m = 2 ^ k" using one_bits_eq_1 by blast
    have "bit_width m - 1 \<le> k" "k < bit_width m"
      using b unfolding k by (simp_all add: power_increasing_iff power_strict_increasing_iff)
    then have "bit_width m - 1 = k" by simp
    with k show "m = 2 ^ (bit_width m - 1)" by simp
  next
    assume "m = 2 ^ (bit_width m - 1)"
    then show "one_bits m = 1" using one_bits_pow2 by metis
  qed
  then have "height_closed_form m
      = (bit_width m - 1) + (if int (one_bits m) - 1 \<noteq> 0 then 1 else 0)"
    using False by (simp add: height_closed_form_def fl)
  then show ?thesis using height_formula_halvings [OF pos] by simp
qed

lemma height_below_two_pow_32:
  "unat n < 2 ^ 32 \<Longrightarrow> unat (height n) = height_closed_form (unat n)"
  by (simp add: unat_height_halvings height_closed_form_halvings)

section \<open>Verification of a proof\<close>

lemma verify_proof_loop_foldl:
  assumes "length proof \<le> 2 ^ 31" "i < length proof"
  shows "verify_proof_loop tb proof i c
           = Some (foldl (ancestor_hash tb) c (take (length proof - 1 - i) (drop i proof)))"
  using assms
proof (induction "length proof - 1 - i" arbitrary: i c)
  case 0
  then have eq: "i = length proof - 1" by simp
  have len: "0 < length proof" "length proof < 2 ^ 64" using 0 by auto
  have "\<not> (word_of_nat i :: u64) < word_of_nat (length proof) - 1"
    using len eq by (simp add: word_less_nat_alt unat_of_nat_pred64 unat_of_nat64)
  then show ?case using eq by (subst verify_proof_loop.simps) simp
next
  case (Suc k)
  then have lt: "i < length proof - 1" by simp
  have len: "0 < length proof" "length proof < 2 ^ 64" "i < 2 ^ 64" using Suc by auto
  have c: "(word_of_nat i :: u64) < word_of_nat (length proof) - 1"
    using len lt by (simp add: word_less_nat_alt unat_of_nat_pred64 unat_of_nat64)
  have e: "elem_at proof (word_of_nat i) = Some (proof ! i)"
    using len lt by (simp add: elem_at_def unat_of_nat64)
  have i: "\<not> 2147483647 \<le> i" using lt Suc.prems by simp
  have k: "k = length proof - 1 - Suc i" using Suc by simp
  have ih: "verify_proof_loop tb proof (Suc i) c'
     = Some (foldl (ancestor_hash tb) c' (take (length proof - Suc (Suc i)) (drop (Suc i) proof)))"
    for c'
    using Suc.hyps(1) [OF k, of c'] Suc.prems lt by simp
  have "drop i proof = proof ! i # drop (Suc i) proof"
    using Suc.prems(2) by (simp add: Cons_nth_drop_Suc)
  moreover have "length proof - Suc i = Suc (length proof - Suc (Suc i))" using lt by simp
  ultimately have t: "take (length proof - Suc i) (drop i proof)
       = proof ! i # take (length proof - Suc (Suc i)) (drop (Suc i) proof)"
    by simp
  show ?case
    by (subst verify_proof_loop.simps) (simp add: c e i ih t ancestor_hash_def)
qed

lemma verify_proof_std_array: "verify_proof tb d (std_array xs) = None"
  by (simp add: verify_proof_def std_array_def)

lemma verify_proof_eq_foldl:
  assumes "xs \<noteq> []" "length xs \<le> 2 ^ 31"
  shows "verify_proof t d (indexed_by_call xs)
           = Some (foldl (ancestor_hash t) (leaf_hash t [Data d]) (butlast xs) = fst (last xs))
       \<and> verify_proof (t\<lparr>m_data := m'\<rparr>) d (indexed_by_call xs)
           = verify_proof t d (indexed_by_call xs)"
proof -
  have len: "0 < length xs" "length xs < 2 ^ 64" using assms by auto
  have e: "elem_at xs (word_of_nat (length xs) - 1) = Some (last xs)"
    using len assms(1) by (simp add: elem_at_def unat_of_nat_pred64 last_conv_nth)
  have l1: "verify_proof_loop t xs 0 c = Some (foldl (ancestor_hash t) c (butlast xs))" for c
    using verify_proof_loop_foldl [of xs 0 t c] assms len by (simp add: butlast_conv_take)
  have l2: "verify_proof_loop (t\<lparr>m_data := m'\<rparr>) xs 0 c
              = Some (foldl (ancestor_hash (t\<lparr>m_data := m'\<rparr>)) c (butlast xs))" for c
    using verify_proof_loop_foldl [of xs 0 "t\<lparr>m_data := m'\<rparr>" c] assms len
    by (simp add: butlast_conv_take)
  have s: "ancestor_hash (t\<lparr>m_data := m'\<rparr>) = ancestor_hash t"
    by (simp add: ancestor_hash_def node_hash_def fun_eq_iff)
  show ?thesis
    by (simp add: verify_proof_def indexed_by_call_def e l1 l2 s leaf_hash_def)
qed

lemma foldl_ancestor_hash_range:
  "xs \<noteq> [] \<Longrightarrow> \<exists>b. foldl (ancestor_hash tb) c xs = m_hash tb b"
proof (induction xs rule: rev_induct)
  case Nil
  then show ?case by simp
next
  case (snoc x xs)
  show ?case by (auto simp: ancestor_hash_def node_hash_def)
qed

text \<open>
  C3. \<open>verify_proof(d, proof)\<close> is meant to start from \<open>leaf_hash(d)\<close>, to fold the entries of
  the proof in order and to compare the result with the hash of the last entry, the asserted
  root. It reads that root as \<open>proof(proof.size() - 1).first\<close>, a call of the proof object,
  where the loop below it reads \<open>proof[i]\<close>. A \<open>std::array\<close> has no call operator. For the
  two-leaf tree built from \<open>"lhs"\<close> and \<open>"rhs"\<close> with the hasher of the tests, and the proof
  of \<open>"lhs"\<close> (the hash of \<open>"rhs"\<close>, then the root), the fold of the entries before the last
  gives the hash of the last entry, and \<open>verify_proof\<close> on that array has no result.
\<close>

theorem verify_proof_calls_the_array:
  "build (test_tree 2 [0, 0, 0]) [''lhs'', ''rhs'']
     = Some (test_tree 2 [107127, 112893, 9312070844858328707])
   \<and> foldl (ancestor_hash (test_tree 2 [107127, 112893, 9312070844858328707]))
        (leaf_hash (test_tree 2 [107127, 112893, 9312070844858328707]) [Data ''lhs''])
        (butlast [(112893, False), (9312070844858328707, False)])
       = fst (last [(112893, False), (9312070844858328707, False)])
   \<and> verify_proof (test_tree 2 [107127, 112893, 9312070844858328707]) ''lhs''
        (std_array [(112893, False), (9312070844858328707, False)]) = None"
  by (simp add: ancestor_hash_def eval_defs)

section \<open>Leaf lookup\<close>


lemma find_leaf_loop_spec:
  assumes "unat n \<le> length m"
  shows "\<exists>r. find_leaf_loop m lh n i = Some r \<and>
           (if \<exists>j. unat i \<le> j \<and> j < unat n \<and> m ! j = lh
            then i \<le> r \<and> r < n \<and> m ! unat r = lh \<and> (\<forall>j. unat i \<le> j \<and> j < unat r \<longrightarrow> m ! j \<noteq> lh)
            else r = - 1)"
proof (induction "unat n - unat i" arbitrary: i)
  case 0
  then have "\<not> i < n" "\<not> (\<exists>j. unat i \<le> j \<and> j < unat n \<and> m ! j = lh)"
    by (auto simp: word_less_nat_alt)
  then show ?case by (simp add: find_leaf_loop.simps)
next
  case (Suc k)
  then have lt: "i < n" by (simp add: word_less_nat_alt)
  then have u: "unat i < unat n" by (simp add: word_less_nat_alt)
  have s: "unat (i + 1) = Suc (unat i)" using lt by (rule unat_succ_less)
  have e: "elem_at m i = Some (m ! unat i)"
    using u assms by (simp add: elem_at_def)
  show ?case
  proof (cases "m ! unat i = lh")
    case True
    then have "find_leaf_loop m lh n i = Some i"
      by (subst find_leaf_loop.simps) (simp add: lt e)
    moreover have "\<exists>j. unat i \<le> j \<and> j < unat n \<and> m ! j = lh" using True u by auto
    ultimately show ?thesis using True lt by auto
  next
    case False
    have k: "k = unat n - unat (i + 1)" using Suc.hyps(2) s by simp
    from Suc.hyps(1) [OF k] obtain r where r: "find_leaf_loop m lh n (i + 1) = Some r"
      and c: "if \<exists>j. unat (i + 1) \<le> j \<and> j < unat n \<and> m ! j = lh
            then i + 1 \<le> r \<and> r < n \<and> m ! unat r = lh
                 \<and> (\<forall>j. unat (i + 1) \<le> j \<and> j < unat r \<longrightarrow> m ! j \<noteq> lh)
            else r = - 1"
      by blast
    have f: "find_leaf_loop m lh n i = Some r"
      by (subst find_leaf_loop.simps) (simp add: lt e False r)
    have iff: "(\<exists>j. unat i \<le> j \<and> j < unat n \<and> m ! j = lh)
             \<longleftrightarrow> (\<exists>j. unat (i + 1) \<le> j \<and> j < unat n \<and> m ! j = lh)"
      using False s by (metis Suc_leI le_neq_implies_less Suc_leD)
    show ?thesis
    proof (cases "\<exists>j. unat (i + 1) \<le> j \<and> j < unat n \<and> m ! j = lh")
      case True
      with c have c': "i + 1 \<le> r" "r < n" "m ! unat r = lh"
        "\<forall>j. unat (i + 1) \<le> j \<and> j < unat r \<longrightarrow> m ! j \<noteq> lh" by simp_all
      have "unat i \<le> unat r" using c'(1) s by (simp add: word_le_nat_alt)
      then have "i \<le> r" by (simp add: word_le_nat_alt)
      moreover have "\<forall>j. unat i \<le> j \<and> j < unat r \<longrightarrow> m ! j \<noteq> lh"
        using c'(4) False s by (metis Suc_leI le_neq_implies_less)
      ultimately show ?thesis using f c' True iff by auto
    next
      case False
      with c have "r = - 1" by simp
      then show ?thesis using f False iff by auto
    qed
  qed
qed

lemma find_leaf_loop_first:
  assumes "unat (LEAFS_N t) \<le> length (m_data t)"
  shows "\<exists>r. find_leaf t data = Some r
     \<and> (if \<exists>i < unat (LEAFS_N t). m_data t ! i = leaf_hash t data
         then r < LEAFS_N t \<and> m_data t ! unat r = leaf_hash t data
              \<and> (\<forall>j < unat r. m_data t ! j \<noteq> leaf_hash t data)
         else r = - 1)"
proof -
  let ?lh = "leaf_hash t data" and ?n = "LEAFS_N t" and ?m = "m_data t"
  obtain r where r: "find_leaf_loop ?m ?lh ?n 0 = Some r"
    and c0: "if \<exists>j. unat (0 :: u64) \<le> j \<and> j < unat ?n \<and> ?m ! j = ?lh
            then 0 \<le> r \<and> r < ?n \<and> ?m ! unat r = ?lh
                 \<and> (\<forall>j. unat (0 :: u64) \<le> j \<and> j < unat r \<longrightarrow> ?m ! j \<noteq> ?lh)
            else r = - 1"
    using find_leaf_loop_spec [OF assms(1), of ?lh 0] by blast
  have z: "unat (0 :: u64) = 0" by simp
  have c: "if \<exists>j < unat ?n. ?m ! j = ?lh
            then r < ?n \<and> ?m ! unat r = ?lh \<and> (\<forall>j < unat r. ?m ! j \<noteq> ?lh)
            else r = - 1"
  proof (cases "\<exists>j < unat ?n. ?m ! j = ?lh")
    case True
    then have T: "\<exists>j. unat (0 :: u64) \<le> j \<and> j < unat ?n \<and> ?m ! j = ?lh"
      unfolding z by blast
    have "0 \<le> r \<and> r < ?n \<and> ?m ! unat r = ?lh
                 \<and> (\<forall>j. unat (0 :: u64) \<le> j \<and> j < unat r \<longrightarrow> ?m ! j \<noteq> ?lh)"
      using c0 unfolding if_P [OF T] .
    then have "r < ?n \<and> ?m ! unat r = ?lh \<and> (\<forall>j < unat r. ?m ! j \<noteq> ?lh)"
      unfolding z by blast
    then show ?thesis unfolding if_P [OF True] .
  next
    case False
    then have F: "\<not> (\<exists>j. unat (0 :: u64) \<le> j \<and> j < unat ?n \<and> ?m ! j = ?lh)"
      unfolding z by blast
    have "r = - 1" using c0 unfolding if_not_P [OF F] .
    then show ?thesis unfolding if_not_P [OF False] .
  qed
  show ?thesis using r c unfolding find_leaf_def by blast
qed



section \<open>Lookup on a tree with one leaf\<close>

text \<open>
  C9. \<open>verify(d)\<close> is meant to return true for every item the tree was built from. With one
  leaf, \<open>build\<close> stores the node-salted hash of the item while \<open>find_leaf\<close> compares the
  leaf-salted hash: for the tree built from \<open>"one"\<close> with the hasher of the tests,
  \<open>verify("one")\<close> returns false.
\<close>

theorem single_leaf_verify_rejects_item:
  "build (test_tree 1 [0]) [''one''] = Some (test_tree 1 [887613863])
   \<and> leaf_hash (test_tree 1 [887613863]) [Data ''one''] = 110182
   \<and> verify (test_tree 1 [887613863]) [Data ''one''] = Some False"
  by (simp add: eval_defs)

section \<open>Proofs of inclusion\<close>

lemma replicate_two: "replicate 2 x = [x, x]"
  by (simp add: numeral_2_eq_2)

text \<open>
  C1. \<open>verify_proof(d, p)\<close> is meant to return true for the proof \<open>p\<close> that \<open>get_proof(d)\<close>
  returns for an item \<open>d\<close> of the collection. The proof that \<open>get_proof\<close> returns is a
  \<open>std::array\<close>, which \<open>verify_proof\<close> calls to read the root. For the three-leaf tree built
  from \<open>"first"\<close>, \<open>"second"\<close>, \<open>"third"\<close> with the hasher of the tests, \<open>get_proof("third")\<close>
  returns the leaf hash with the sibling (the copy of the last leaf), the left neighbour one
  level up and the root; \<open>verify_proof\<close> on that array has no result. With one leaf,
  \<open>get_proof\<close> itself has no result.
\<close>

theorem item_proof_not_verified:
  "build (test_tree 3 [0, 0, 0, 0, 0, 0, 0]) [''first'', ''second'', ''third'']
     = Some (test_tree 3 [97440432, 3388687476, 110331239, 110331239, 322142990766043894,
               5527437391252964097, 4266686230798737539])
   \<and> get_proof (test_tree 3 [97440432, 3388687476, 110331239, 110331239, 322142990766043894,
               5527437391252964097, 4266686230798737539]) ''third''
       = Some (LeafAndProof 110331239
           [(110331239, False), (322142990766043894, True), (4266686230798737539, False)])
   \<and> verify_proof (test_tree 3 [97440432, 3388687476, 110331239, 110331239, 322142990766043894,
               5527437391252964097, 4266686230798737539]) ''third''
        (std_array [(110331239, False), (322142990766043894, True), (4266686230798737539, False)])
       = None
   \<and> build (test_tree 1 [0]) [''one''] = Some (test_tree 1 [887613863])
   \<and> get_proof (test_tree 1 [887613863]) ''one'' = None"
  by (intro conjI)
    (simp add: eval_defs get_proof_loop.simps get_layer_def get_layer_loop.simps root_def
      SIZE_def calc_tree_size_def calc_tree_size_loop.simps replicate_two)+

section \<open>The sentinel proof\<close>

lemma absent_data_sentinel:
  assumes b: "unat (LEAFS_N t) \<le> length (m_data t)"
    and n: "LEAFS_N t \<noteq> 1"
    and nm: "\<forall>i < unat (LEAFS_N t). m_data t ! i \<noteq> leaf_hash t [Data d]"
  shows "get_proof t d
           = Some (LeafAndProof 0 (replicate (unat (height (LEAFS_N t)) + 1) (0, False)))"
proof -
  obtain r where r: "find_leaf t [Data d] = Some r"
    and c: "if \<exists>i < unat (LEAFS_N t). m_data t ! i = leaf_hash t [Data d]
       then r < LEAFS_N t \<and> m_data t ! unat r = leaf_hash t [Data d]
            \<and> (\<forall>j < unat r. m_data t ! j \<noteq> leaf_hash t [Data d])
       else r = - 1"
    using find_leaf_loop_first [OF b, of "[Data d]"] by blast
  have nex: "\<not> (\<exists>i < unat (LEAFS_N t). m_data t ! i = leaf_hash t [Data d])"
    using nm by blast
  have "r = - 1" using c unfolding if_not_P [OF nex] .
  then show ?thesis using n r by (simp add: get_proof_def Let_def)
qed

lemma sentinel_fold_nonzero:
  fixes t :: "('d, 'h::zero) FixedSizeTree"
  assumes nz: "\<forall>b. m_hash t b \<noteq> 0"
  shows "verify_proof t d (indexed_by_call (replicate (unat (height n) + 1) (0, False)))
           = Some False"
proof -
  let ?p = "replicate (unat (height n) + 1) (0 :: 'h, False)"
  have len: "?p \<noteq> []" "length ?p \<le> 2 ^ 31" using unat_height_le [of n] by simp_all
  have l: "fst (last ?p) = 0" by simp
  have "foldl (ancestor_hash t) (leaf_hash t [Data d]) (butlast ?p) \<noteq> 0"
  proof (cases "butlast ?p = []")
    case True
    then show ?thesis using nz by (simp add: leaf_hash_def)
  next
    case False
    from foldl_ancestor_hash_range [OF False]
    obtain b where "foldl (ancestor_hash t) (leaf_hash t [Data d]) (butlast ?p) = m_hash t b"
      by blast
    then show ?thesis using nz by simp
  qed
  then show ?thesis
    using verify_proof_eq_foldl [OF len, of t d] l by simp
qed

text \<open>
  C6. For data that matches no leaf, \<open>get_proof\<close> returns the sentinel, a zero leaf hash
  with \<open>height + 1\<close> entries of zero hash and false flag, and \<open>verify_proof\<close> is meant to
  reject it. The sentinel is a \<open>std::array\<close>, which \<open>verify_proof\<close> calls to read the root.
  For the two-leaf tree built from \<open>"lhs"\<close> and \<open>"rhs"\<close> with the hasher of the tests,
  \<open>"third"\<close> matches no leaf, \<open>get_proof("third")\<close> returns the sentinel, and \<open>verify_proof\<close>
  on it has no result.
\<close>

theorem sentinel_proof_not_rejected:
  "build (test_tree 2 [0, 0, 0]) [''lhs'', ''rhs'']
     = Some (test_tree 2 [107127, 112893, 9312070844858328707])
   \<and> verify (test_tree 2 [107127, 112893, 9312070844858328707]) [Data ''third''] = Some False
   \<and> get_proof (test_tree 2 [107127, 112893, 9312070844858328707]) ''third''
       = Some (LeafAndProof 0 [(0, False), (0, False)])
   \<and> verify_proof (test_tree 2 [107127, 112893, 9312070844858328707]) ''third''
        (std_array [(0, False), (0, False)]) = None"
  by (simp add: eval_defs)

section \<open>Layers\<close>

text \<open>
  C8, as stated, fails for a tree with one leaf: its height is 0, so the leaf layer is the
  root layer, and \<open>get_layer(0)\<close> returns length 1, not the evened leaf count 2.
\<close>

theorem get_layer_single_leaf:
  "height 1 = 0
   \<and> get_layer (test_tree 1 [887613863]) (height 1) = (0, 1)
   \<and> LEAFS_N (test_tree 1 [887613863]) + (LEAFS_N (test_tree 1 [887613863]) AND 1) = 2"
  by (simp add: eval_defs get_layer_def get_layer_loop.simps)

lemma unat_and_one: "unat ((c :: u64) AND 1) = unat c mod 2"
  by (simp add: and_one_eq unat_mod)

lemma unat_drop_bit_1:
  "unat (drop_bit 1 (c :: u64)) = unat c div 2"
  "unat (drop_bit (Suc 0) (c :: u64)) = unat c div 2"
  by (simp_all add: drop_bit_eq_div unat_div)

lemma unat_round_even:
  assumes "unat (c :: u64) < 2 ^ 63"
  shows "unat (c + (c AND 1)) = unat c + unat c mod 2"
proof -
  have "unat c + unat (c AND 1) < 2 ^ 64" using assms by (simp add: unat_and_one)
  then have "unat (c + (c AND 1)) = unat c + unat (c AND 1)"
    by (simp add: unat_word_ariths)
  then show ?thesis by (simp add: unat_and_one)
qed

lemma halvings_le_64: "n < 2 ^ 64 \<Longrightarrow> halvings n \<le> 64"
  by (rule halvings_le) simp

lemma layer_walk_total:
  assumes "unat c < 2 ^ 63"
  shows "get_layer_loop (word_of_nat (halvings (unat c))) off (c + (c AND 1))
           = (off + (calc_tree_size_loop c s - s), if 1 < c then 2 else c + (c AND 1))"
  using assms
proof (induction "halvings (unat c)" arbitrary: c off s)
  case 0
  then have "unat c \<le> 1" by (subst (asm) halvings.simps) (simp split: if_splits)
  then have c: "\<not> 1 < c" by (simp add: word_less_nat_alt)
  have "calc_tree_size_loop c s = s" using c by (subst calc_tree_size_loop.simps) simp
  moreover have "get_layer_loop 0 off (c + (c AND 1)) = (off, c + (c AND 1))"
    by (subst get_layer_loop.simps) simp
  ultimately show ?case using 0 c by simp
next
  case (Suc k)
  let ?e = "c + (c AND 1)"
  let ?c' = "drop_bit 1 ?e"
  have gt: "1 < unat c" using Suc.hyps(2) by (subst (asm) halvings.simps) (simp split: if_splits)
  then have c: "1 < c" by (simp add: word_less_nat_alt)
  have ue: "unat ?e = unat c + unat c mod 2" using Suc.prems by (rule unat_round_even)
  have uc': "unat ?c' = (unat c + 1) div 2"
    unfolding unat_drop_bit_1 ue by presburger
  have k: "k = halvings (unat ?c')"
    using Suc.hyps(2) gt unfolding uc' by (subst (asm) halvings.simps) simp
  have b: "unat ?c' < 2 ^ 63" using Suc.prems unfolding uc' by simp
  have "Suc k \<le> 64" using halvings_le_64 [of "unat c"] Suc.hyps(2) Suc.prems by simp
  then have "unat (word_of_nat (Suc k) :: u64) = Suc k" by (intro unat_of_nat64) simp
  then have nz: "(word_of_nat (Suc k) :: u64) \<noteq> 0" by auto
  have ih: "get_layer_loop (word_of_nat k) (off + ?e) (?c' + (?c' AND 1))
      = (off + ?e + (calc_tree_size_loop ?c' (s + ?e) - (s + ?e)),
         if 1 < ?c' then 2 else ?c' + (?c' AND 1))"
    using Suc.hyps(1) [OF k b, of "off + ?e" "s + ?e"] unfolding k [symmetric] .
  have c'1: "\<not> 1 < ?c' \<Longrightarrow> ?c' = 1"
  proof -
    assume "\<not> 1 < ?c'"
    then have "unat ?c' \<le> 1" by (simp add: word_less_nat_alt)
    moreover have "1 \<le> unat ?c'" unfolding uc' using gt by simp
    ultimately have "unat ?c' = 1" by simp
    then show "?c' = 1" by (simp add: word_unat_eq_iff)
  qed
  have snd_eq: "(if 1 < ?c' then 2 else ?c' + (?c' AND 1)) = (2 :: u64)"
    using c'1 by (cases "1 < ?c'") simp_all
  have calc: "calc_tree_size_loop c s = calc_tree_size_loop ?c' (s + ?e)"
    using c by (subst calc_tree_size_loop.simps) (simp add: Let_def)
  have "get_layer_loop (word_of_nat (Suc k)) off ?e
      = get_layer_loop (word_of_nat k) (off + ?e) (?c' + (?c' AND 1))"
    using nz by (subst get_layer_loop.simps) (simp add: Let_def)
  also have "\<dots> = (off + (calc_tree_size_loop c s - s), 2)"
    unfolding ih snd_eq calc by simp
  finally show ?case using c Suc.hyps(2) by simp
qed

lemma get_layer_loop_0: "get_layer_loop 0 off n = (off, n)"
  by (subst get_layer_loop.simps) simp

lemma get_layer_loop_step:
  "i \<noteq> 0 \<Longrightarrow> get_layer_loop i off n
      = get_layer_loop (i - 1) (off + n) (drop_bit 1 n + (drop_bit 1 n AND 1))"
  by (subst get_layer_loop.simps) (simp add: Let_def)

lemma get_layer_loop_last:
  "i + 1 \<noteq> 0 \<Longrightarrow>
     get_layer_loop (i + 1) off n
       = (fst (get_layer_loop i off n) + snd (get_layer_loop i off n),
          drop_bit 1 (snd (get_layer_loop i off n))
            + (drop_bit 1 (snd (get_layer_loop i off n)) AND 1))"
proof (induction "unat i" arbitrary: i off n)
  case 0
  then have i: "i = 0" by (simp add: unat_eq_0)
  show ?case unfolding i by (simp add: get_layer_loop_step get_layer_loop_0)
next
  case (Suc k)
  then have nz: "i \<noteq> 0" by auto
  let ?n' = "drop_bit 1 n + (drop_bit 1 n AND 1)"
  have k: "k = unat (i - 1)" using Suc.hyps(2) nz by (simp add: unat_minus_one)
  have s: "i - 1 + 1 \<noteq> 0" using nz by simp
  have "get_layer_loop (i + 1) off n = get_layer_loop i (off + n) ?n'"
    using Suc.prems by (simp add: get_layer_loop_step)
  also have "\<dots> = get_layer_loop (i - 1 + 1) (off + n) ?n'" by simp
  also have "\<dots> = (fst (get_layer_loop (i - 1) (off + n) ?n') + snd (get_layer_loop (i - 1) (off + n) ?n'),
          drop_bit 1 (snd (get_layer_loop (i - 1) (off + n) ?n'))
            + (drop_bit 1 (snd (get_layer_loop (i - 1) (off + n) ?n')) AND 1))"
    by (rule Suc.hyps(1) [OF k s])
  also have "get_layer_loop (i - 1) (off + n) ?n' = get_layer_loop i off n"
    using nz by (simp add: get_layer_loop_step)
  finally show ?case .
qed

lemma unat_halve_even_le:
  assumes "unat (n :: u64) \<le> M" "2 \<le> M" "M < 2 ^ 63"
  shows "unat (drop_bit 1 n + (drop_bit 1 n AND 1)) \<le> M"
proof -
  have "unat (drop_bit 1 n) < 2 ^ 63" using assms unfolding unat_drop_bit_1 by simp
  then have "unat (drop_bit 1 n + (drop_bit 1 n AND 1)) = unat n div 2 + (unat n div 2) mod 2"
    using unat_round_even [of "drop_bit 1 n"] by (simp add: unat_drop_bit_1)
  then show ?thesis using assms by simp
qed

lemma get_layer_loop_bounds:
  assumes "unat n \<le> M" "2 \<le> M" "M < 2 ^ 63" "unat off + unat i * M < 2 ^ 64"
  shows "unat (fst (get_layer_loop i off n)) \<le> unat off + unat i * M
       \<and> unat (snd (get_layer_loop i off n)) \<le> M"
  using assms
proof (induction "unat i" arbitrary: i off n)
  case 0
  then have i: "i = 0" by (simp add: unat_eq_0)
  show ?case unfolding i using 0 by (simp add: get_layer_loop_0)
next
  case (Suc k)
  then have nz: "i \<noteq> 0" by auto
  let ?n' = "drop_bit 1 n + (drop_bit 1 n AND 1)"
  have k: "k = unat (i - 1)" using Suc.hyps(2) nz by (simp add: unat_minus_one)
  have ui: "unat i = Suc (unat (i - 1))" using Suc.hyps(2) k by simp
  have n': "unat ?n' \<le> M" using Suc.prems(1-3) by (rule unat_halve_even_le)
  have "unat off + unat n < 2 ^ 64" using Suc.prems unfolding ui by simp
  then have on: "unat (off + n) = unat off + unat n" by (simp add: unat_word_ariths)
  have b: "unat (off + n) + unat (i - 1) * M < 2 ^ 64"
    using Suc.prems unfolding on ui by simp
  from Suc.hyps(1) [OF k n' Suc.prems(2,3) b]
  have "unat (fst (get_layer_loop (i - 1) (off + n) ?n')) \<le> unat (off + n) + unat (i - 1) * M
       \<and> unat (snd (get_layer_loop (i - 1) (off + n) ?n')) \<le> M" .
  moreover have "unat (off + n) + unat (i - 1) * M \<le> unat off + unat i * M"
    using Suc.prems(1) unfolding on ui by simp
  ultimately show ?case using nz by (simp add: get_layer_loop_step)
qed

lemma get_layer_segments_aux:
  assumes "2 \<le> LEAFS_N t" "LEAFS_N t < 2 ^ 32"
  shows "get_layer t 0 = (SIZE t - 1, 1)"
    and "get_layer t (height (LEAFS_N t)) = (0, LEAFS_N t + (LEAFS_N t AND 1))"
    and "idx < height (LEAFS_N t) \<Longrightarrow>
          unat (fst (get_layer t idx))
            = unat (fst (get_layer t (idx + 1))) + unat (snd (get_layer t (idx + 1)))
          \<and> snd (get_layer t idx) + (if idx = 0 then 1 else 0)
            = drop_bit 1 (snd (get_layer t (idx + 1)))
                + (drop_bit 1 (snd (get_layer t (idx + 1))) AND 1)"
proof -
  let ?N = "LEAFS_N t" and ?h = "height (LEAFS_N t)"
  let ?n0 = "?N + (?N AND 1)"
  have uN: "unat ?N < 2 ^ 32" "2 \<le> unat ?N"
    using assms by (simp_all add: word_less_nat_alt word_le_nat_alt)
  have uh: "unat ?h = halvings (unat ?N)" using uN(1) by (rule unat_height_halvings)
  have "word_of_nat (unat ?h) = ?h" by simp
  then have h: "?h = word_of_nat (halvings (unat ?N))" unfolding uh by simp
  have h1: "1 \<le> unat ?h" unfolding uh using uN(2) by (subst halvings.simps) simp
  have h64: "unat ?h \<le> 64" by (rule unat_height_le)
  have hnz: "?h \<noteq> 0" using h1 by auto
  have N63: "unat ?N < 2 ^ 63" using uN(1) by simp
  have N1: "1 < ?N" using uN(2) by (simp add: word_less_nat_alt)
  have "get_layer_loop ?h 0 ?n0 = (0 + (calc_tree_size_loop ?N 1 - 1), if 1 < ?N then 2 else ?n0)"
    unfolding h by (rule layer_walk_total [OF N63])
  then show "get_layer t 0 = (SIZE t - 1, 1)"
    using N1 by (simp add: get_layer_def SIZE_def calc_tree_size_def Let_def)
  show "get_layer t ?h = (0, ?n0)"
    using hnz by (simp add: get_layer_def Let_def get_layer_loop_0)
  assume lt: "idx < ?h"
  let ?i = "?h - (idx + 1)"
  let ?r = "get_layer_loop ?i 0 ?n0"
  have ui: "unat idx < unat ?h" using lt by (simp add: word_less_nat_alt)
  have i1: "?h - idx = ?i + 1" by simp
  have i1nz: "?i + 1 \<noteq> 0" using lt by auto
  have idx1: "idx + 1 \<noteq> 0" using unat_succ_less [OF lt] by auto
  have last: "get_layer_loop (?h - idx) 0 ?n0
      = (fst ?r + snd ?r, drop_bit 1 (snd ?r) + (drop_bit 1 (snd ?r) AND 1))"
    unfolding i1 by (rule get_layer_loop_last [OF i1nz])
  have g1: "get_layer t (idx + 1) = ?r"
    using idx1 by (simp add: get_layer_def Let_def)
  have g0: "get_layer t idx
      = (fst ?r + snd ?r, drop_bit 1 (snd ?r) + (drop_bit 1 (snd ?r) AND 1) - (if idx = 0 then 1 else 0))"
    by (simp add: get_layer_def Let_def last)
  have un0: "unat ?n0 \<le> 2 ^ 32" using uN(1) unat_round_even [OF N63] by simp
  have "unat (idx + 1) \<le> unat ?h" using unat_succ_less [OF lt] ui by simp
  then have "idx + 1 \<le> ?h" by (simp add: word_le_nat_alt)
  then have "unat ?i = unat ?h - unat (idx + 1)" by (rule unat_sub)
  then have "unat ?i \<le> unat ?h" by simp
  then have ui64: "unat ?i \<le> 64" using h64 by simp
  then have "unat ?i * 2 ^ 32 \<le> 64 * 2 ^ 32" by simp
  then have b: "unat (0 :: u64) + unat ?i * 2 ^ 32 < 2 ^ 64" by simp
  have bounds: "unat (fst ?r) \<le> unat (0 :: u64) + unat ?i * 2 ^ 32 \<and> unat (snd ?r) \<le> 2 ^ 32"
    by (rule get_layer_loop_bounds [OF un0 _ _ b]) simp_all
  then have "unat (fst ?r) + unat (snd ?r) < 2 ^ 64" using \<open>unat ?i * 2 ^ 32 \<le> 64 * 2 ^ 32\<close> by simp
  then have sum: "unat (fst ?r + snd ?r) = unat (fst ?r) + unat (snd ?r)"
    by (simp add: unat_word_ariths)
  show "unat (fst (get_layer t idx))
            = unat (fst (get_layer t (idx + 1))) + unat (snd (get_layer t (idx + 1)))
          \<and> snd (get_layer t idx) + (if idx = 0 then 1 else 0)
            = drop_bit 1 (snd (get_layer t (idx + 1)))
                + (drop_bit 1 (snd (get_layer t (idx + 1))) AND 1)"
    unfolding g1 g0 using sum by simp
qed


text \<open>
  C8, amended. For a tree with at least two leaves (and fewer than \<open>2^32\<close>, the range in
  which \<open>height\<close> is the number of levels above the leaves), \<open>get_layer(0)\<close> is the root,
  at position \<open>size() - 1\<close> with length 1; \<open>get_layer(height)\<close> is the leaf layer, at
  position 0 with the evened leaf count as its length; and every layer \<open>idx\<close> below the
  height starts exactly where layer \<open>idx + 1\<close> ends, its length (for the root layer, its
  length plus one) being half the length of layer \<open>idx + 1\<close> rounded up to even. The
  lengths are thus obtained from the evened leaf count by halving and evening, the offsets by
  accumulating them.
\<close>

theorem get_layer_segments:
  assumes "2 \<le> LEAFS_N t" "LEAFS_N t < 2 ^ 32"
  shows "get_layer t 0 = (SIZE t - 1, 1)
       \<and> get_layer t (height (LEAFS_N t)) = (0, LEAFS_N t + (LEAFS_N t AND 1))
       \<and> (\<forall>idx < height (LEAFS_N t).
            unat (fst (get_layer t idx))
              = unat (fst (get_layer t (idx + 1))) + unat (snd (get_layer t (idx + 1)))
            \<and> snd (get_layer t idx) + (if idx = 0 then 1 else 0)
              = drop_bit 1 (snd (get_layer t (idx + 1)))
                  + (drop_bit 1 (snd (get_layer t (idx + 1))) AND 1))"
  using get_layer_segments_aux [OF assms] by blast


theorem get_layer_segments_witness:
  "2 \<le> LEAFS_N (test_tree 5 []) \<and> LEAFS_N (test_tree 5 []) < 2 ^ 32
   \<and> get_layer (test_tree 5 []) 0 = (12, 1)
   \<and> get_layer (test_tree 5 []) (height 5) = (0, 6)
   \<and> SIZE (test_tree 5 []) = 13 \<and> height 5 = 3"
proof -
  have a: "2 \<le> LEAFS_N (test_tree 5 [])" "LEAFS_N (test_tree 5 []) < 2 ^ 32"
    by (simp_all add: test_tree_def)
  have s: "SIZE (test_tree 5 []) = 13"
    by (simp add: SIZE_def calc_tree_size_def calc_tree_size_loop.simps test_tree_def)
  have h: "height 5 = 3" by (simp add: eval_defs)
  have n: "LEAFS_N (test_tree 5 []) = 5" by (simp add: test_tree_def)
  from get_layer_segments [OF a]
  have "get_layer (test_tree 5 []) 0 = (SIZE (test_tree 5 []) - 1, 1)"
    and "get_layer (test_tree 5 []) (height (LEAFS_N (test_tree 5 [])))
      = (0, LEAFS_N (test_tree 5 []) + (LEAFS_N (test_tree 5 []) AND 1))"
    by blast+
  then show ?thesis using a s h unfolding n by simp
qed

section \<open>Trees of two or more leaves\<close>

text \<open>
  For \<open>2 \<le> LEAFS_N < 2^32\<close> the build terminates and fills the storage level by level;
  every item of the collection is then found by \<open>verify\<close>, and \<open>get_proof\<close> returns for it
  the leaf hash, the siblings along the path and the root. The fold of \<open>verify_proof\<close> over
  these entries gives the root: a proof object that holds them and whose call operator
  reads an entry is accepted, while the array itself, which has no call operator, gets no
  result.
\<close>

subsection \<open>One level of pairs\<close>

lemma unat_push_bit_1:
  "unat (i :: u64) < 2 ^ 63 \<Longrightarrow> unat (push_bit 1 i) = 2 * unat i"
  by (simp add: push_bit_eq_mult unat_word_ariths)

lemma elem_at_nth: "unat i < length m \<Longrightarrow> elem_at m i = Some (m ! unat i)"
  by (simp add: elem_at_def)

lemma elem_put_upd: "unat i < length m \<Longrightarrow> elem_put m i v = Some (m[unat i := v])"
  by (simp add: elem_put_def)

lemma build_pairs_spec:
  assumes lr: "l \<le> r"
    and room: "unat r + unat (drop_bit 1 (r - l)) \<le> length m"
    and small: "length m < 2 ^ 63"
    and i: "unat i \<le> unat (drop_bit 1 (r - l))"
  shows "\<exists>m'. build_pairs tb l r i m = Some m' \<and> length m' = length m \<and>
           (\<forall>p < length m. m' ! p =
              (if unat r + unat i \<le> p \<and> p < unat r + unat (drop_bit 1 (r - l))
               then node_hash tb [Hashed (m ! (unat l + 2 * (p - unat r))),
                                  Hashed (m ! (unat l + 2 * (p - unat r) + 1))]
               else m ! p))"
  using room small i
proof (induction "unat (drop_bit 1 (r - l)) - unat i" arbitrary: i m)
  case 0
  then have "\<not> i < drop_bit 1 (r - l)" by (simp add: word_less_nat_alt)
  then have "build_pairs tb l r i m = Some m" by (subst build_pairs.simps) simp
  moreover have "unat i = unat (drop_bit 1 (r - l))" using 0 by simp
  ultimately show ?case by auto
next
  case (Suc k)
  let ?half = "drop_bit 1 (r - l)"
  have lt: "i < ?half" using Suc.hyps(2) by (simp add: word_less_nat_alt)
  then have ui: "unat i < unat ?half" by (simp add: word_less_nat_alt)
  have url: "unat (r - l) = unat r - unat l" using lr by (rule unat_sub)
  have uh: "unat ?half = (unat r - unat l) div 2" by (simp add: unat_drop_bit_1 url)
  have ul: "unat l \<le> unat r" using lr by (simp add: word_le_nat_alt)
  have r63: "unat r < 2 ^ 63" using Suc.prems(1,2) by linarith
  have i63: "unat i < 2 ^ 63" using Suc.prems(1,2) ui by linarith
  have l63: "unat l < 2 ^ 63" using r63 ul by linarith
  note rsmall = r63 i63 l63
  have i2: "unat (push_bit 1 i) = 2 * unat i" using i63 by (rule unat_push_bit_1)
  have two_i: "2 * unat i + 1 < unat r - unat l" using ui unfolding uh by simp
  have a_idx: "unat (push_bit 1 i + l) = 2 * unat i + unat l"
    using i2 two_i rsmall by (simp add: unat_word_ariths)
  have b_idx: "unat (push_bit 1 i + l + 1) = 2 * unat i + unat l + 1"
    using a_idx two_i rsmall by (simp add: unat_word_ariths)
  have w_idx: "unat (r + i) = unat r + unat i"
    using rsmall by (simp add: unat_word_ariths)
  have in_a: "2 * unat i + unat l < length m" "2 * unat i + unat l + 1 < length m"
    using two_i Suc.prems(1) by simp_all
  have in_w: "unat r + unat i < length m" using ui Suc.prems(1) by simp
  let ?v = "node_hash tb [Hashed (m ! (2 * unat i + unat l)), Hashed (m ! (2 * unat i + unat l + 1))]"
  let ?m1 = "m[unat r + unat i := ?v]"
  have ea: "elem_at m (push_bit 1 i + l) = Some (m ! (2 * unat i + unat l))"
    unfolding elem_at_def a_idx using in_a(1) by simp
  have eb: "elem_at m (push_bit 1 i + l + 1) = Some (m ! (2 * unat i + unat l + 1))"
    unfolding elem_at_def b_idx using in_a(2) by simp
  have ew: "elem_put m (r + i) v = Some (m[unat r + unat i := v])" for v
    unfolding elem_put_def w_idx using in_w by simp
  have step: "build_pairs tb l r i m = build_pairs tb l r (i + 1) ?m1"
    by (subst build_pairs.simps) (simp only: lt if_True ea eb ew option.case)
  have s: "unat (i + 1) = Suc (unat i)" using lt by (rule unat_succ_less)
  have k: "k = unat ?half - unat (i + 1)" using Suc.hyps(2) s by simp
  have room1: "unat r + unat ?half \<le> length ?m1" using Suc.prems(1) by simp
  have small1: "length ?m1 < 2 ^ 63" using Suc.prems(2) by simp
  have i1: "unat (i + 1) \<le> unat ?half" using ui s by simp
  from Suc.hyps(1) [OF k room1 small1 i1]
  obtain m' where m': "build_pairs tb l r (i + 1) ?m1 = Some m'" "length m' = length ?m1"
    and c: "\<forall>p < length ?m1. m' ! p =
              (if unat r + unat (i + 1) \<le> p \<and> p < unat r + unat ?half
               then node_hash tb [Hashed (?m1 ! (unat l + 2 * (p - unat r))),
                                  Hashed (?m1 ! (unat l + 2 * (p - unat r) + 1))]
               else ?m1 ! p)"
    by blast
  have "m' ! p =
              (if unat r + unat i \<le> p \<and> p < unat r + unat ?half
               then node_hash tb [Hashed (m ! (unat l + 2 * (p - unat r))),
                                  Hashed (m ! (unat l + 2 * (p - unat r) + 1))]
               else m ! p)" if p: "p < length m" for p
  proof -
    from c p have cp: "m' ! p =
              (if unat r + Suc (unat i) \<le> p \<and> p < unat r + unat ?half
               then node_hash tb [Hashed (?m1 ! (unat l + 2 * (p - unat r))),
                                  Hashed (?m1 ! (unat l + 2 * (p - unat r) + 1))]
               else ?m1 ! p)"
      unfolding s by simp
    show ?thesis
    proof (cases "unat r + Suc (unat i) \<le> p \<and> p < unat r + unat ?half")
      case True
      then have rd: "unat l + 2 * (p - unat r) + 1 < unat r"
        unfolding uh using ul by linarith
      then have r1: "?m1 ! (unat l + 2 * (p - unat r)) = m ! (unat l + 2 * (p - unat r))"
        and r2: "?m1 ! (unat l + 2 * (p - unat r) + 1) = m ! (unat l + 2 * (p - unat r) + 1)"
        by simp_all
      have C2: "unat r + unat i \<le> p \<and> p < unat r + unat ?half" using True by simp
      show ?thesis by (simp only: cp if_P [OF True] if_P [OF C2] r1 r2)
    next
      case F1: False
      have mp: "m' ! p = ?m1 ! p" by (simp only: cp if_not_P [OF F1])
      show ?thesis
      proof (cases "p = unat r + unat i")
        case True
        have v: "?m1 ! p = ?v" using True in_w by simp
        have e: "unat l + 2 * (p - unat r) = 2 * unat i + unat l" using True by simp
        have C2: "unat r + unat i \<le> p \<and> p < unat r + unat ?half" using True ui by simp
        show ?thesis by (simp only: mp v if_P [OF C2] e)
      next
        case False
        then have v: "?m1 ! p = m ! p" by simp
        have C2: "\<not> (unat r + unat i \<le> p \<and> p < unat r + unat ?half)"
          using F1 False by linarith
        show ?thesis by (simp only: mp v if_not_P [OF C2])
      qed
    qed
  qed
  then show ?case using m' step by simp
qed

subsection \<open>The level layout\<close>

lemma halvings_Suc: "2 \<le> c \<Longrightarrow> halvings c = Suc (halvings ((c + 1) div 2))"
  by (subst halvings.simps) simp

lemma halvings_0: "c \<le> 1 \<Longrightarrow> halvings c = 0"
  by (subst halvings.simps) simp

lemma halvings_eq_0: "halvings c = 0 \<Longrightarrow> c \<le> 1"
  by (subst (asm) halvings.simps) (simp split: if_splits)

lemma halvings_eq_Suc: "halvings c = Suc h \<Longrightarrow> 2 \<le> c \<and> h = halvings ((c + 1) div 2)"
  by (subst (asm) halvings.simps) (simp split: if_splits)

lemma count_le_lvl_start: "1 \<le> c \<Longrightarrow> c \<le> lvl_start c (halvings c) + 1"
proof (cases "c \<le> 1")
  case True
  then show ?thesis by simp
next
  case False
  then have "halvings c = Suc (halvings ((c + 1) div 2))" by (simp add: halvings_Suc)
  then show ?thesis by simp
qed

lemma build_levels_step:
  assumes c: "2 \<le> c" and s: "even s" and room: "s + (c + c mod 2) + (c + 1) div 2 \<le> length m"
    and small: "length m < 2 ^ 63"
  shows "build_levels tb t (word_of_nat s) (word_of_nat (s + c)) m
     = (case build_pairs tb (word_of_nat s) (word_of_nat (s + (c + c mod 2))) 0
               (if odd c then m[s + c := m ! (s + c - 1)] else m) of
          None \<Rightarrow> None
        | Some m2 \<Rightarrow>
            build_levels tb (word_of_nat s) (word_of_nat (s + (c + c mod 2)))
              (word_of_nat (s + (c + c mod 2) + (c + 1) div 2)) m2)"
proof -
  let ?l = "word_of_nat s :: u64" and ?r = "word_of_nat (s + c) :: u64"
  let ?e = "c + c mod 2"
  have b: "s + c < 2 ^ 64" "s < 2 ^ 64" "s + ?e < 2 ^ 64" "s + c - 1 < 2 ^ 64"
    using room small by simp_all
  have ul: "unat ?l = s" by (rule unat_of_nat64 [OF b(2)])
  have ur: "unat ?r = s + c" by (rule unat_of_nat64 [OF b(1)])
  have r1: "?r - 1 = word_of_nat (s + c - 1)" using c by (simp add: of_nat_diff)
  have ur1: "unat (?r - 1) = s + c - 1" unfolding r1 by (rule unat_of_nat64 [OF b(4)])
  have lt: "?l < ?r - 1" using c by (simp only: word_less_nat_alt ul ur1)
  have odd: "?r AND 1 \<noteq> 0 \<longleftrightarrow> odd c"
  proof -
    have "unat (?r AND 1) = (s + c) mod 2" by (simp only: unat_and_one ur)
    then have "?r AND 1 = 0 \<longleftrightarrow> even (s + c)"
      by (metis unat_eq_0 dvd_eq_mod_eq_0)
    then show ?thesis using s by simp
  qed
  have rp: "?r + 1 = word_of_nat (s + c + 1)" by simp
  have rd: "elem_at m (?r - 1) = Some (m ! (s + c - 1))"
    unfolding elem_at_def ur1 using room c by simp
  have wr: "odd c \<Longrightarrow> elem_put m ?r v = Some (m[s + c := v])" for v
    unfolding elem_put_def ur using room by (simp add: odd_iff_mod_2_eq_one) 
  have r': "(if ?r AND 1 \<noteq> 0 then ?r + 1 else ?r) = word_of_nat (s + ?e)"
    unfolding odd by (simp add: odd_iff_mod_2_eq_one)
  have half: "drop_bit 1 (word_of_nat (s + ?e) - ?l) = (word_of_nat ((c + 1) div 2) :: u64)"
  proof -
    have e1: "(word_of_nat (s + ?e) - ?l :: u64) = word_of_nat ?e" by simp
    have e2: "unat (word_of_nat ?e :: u64) = ?e" using b by (intro unat_of_nat64) simp
    have e3: "unat (word_of_nat ((c + 1) div 2) :: u64) = (c + 1) div 2"
      using b by (intro unat_of_nat64) simp
    have "unat (drop_bit 1 (word_of_nat (s + ?e) - ?l :: u64)) = ?e div 2"
      unfolding e1 unat_drop_bit_1 e2 ..
    also have "\<dots> = (c + 1) div 2" by presburger
    finally have "unat (drop_bit 1 (word_of_nat (s + ?e) - ?l :: u64))
        = unat (word_of_nat ((c + 1) div 2) :: u64)"
      unfolding e3 .
    then show ?thesis by (simp only: word_unat_eq_iff)
  qed
  have nr: "word_of_nat (s + ?e) + (word_of_nat ((c + 1) div 2) :: u64)
      = word_of_nat (s + ?e + (c + 1) div 2)" by simp
  have m1: "(if ?r AND 1 \<noteq> 0
             then (case elem_at m (?r - 1) of None \<Rightarrow> None | Some v \<Rightarrow> elem_put m ?r v)
             else Some m) = Some (if odd c then m[s + c := m ! (s + c - 1)] else m)"
    unfolding odd rd using wr by simp
  show ?thesis
    by (subst build_levels.simps) (simp only: lt if_True m1 option.case r' half nr)
qed

subsection \<open>All levels\<close>

lemma build_levels_done:
  assumes "s + 1 < 2 ^ 64"
  shows "build_levels tb t (word_of_nat s) (word_of_nat (s + 1)) m = Some m"
proof -
  have "(word_of_nat (s + 1) - 1 :: u64) = word_of_nat s" by simp
  then have "\<not> (word_of_nat s :: u64) < word_of_nat (s + 1) - 1" by simp
  then show ?thesis by (subst build_levels.simps) (simp only: if_False)
qed

lemma build_levels_spec:
  assumes "1 \<le> c" "even s" "s + lvl_start c (halvings c) + 1 \<le> length m" "length m < 2 ^ 63"
  shows "\<exists>m'. build_levels tb t (word_of_nat s) (word_of_nat (s + c)) m = Some m'
      \<and> length m' = length m
      \<and> (\<forall>p < s + c. m' ! p = m ! p)
      \<and> (\<forall>k < halvings c. \<forall>j < lvl_count c (Suc k).
            m' ! (s + lvl_start c (Suc k) + j)
              = node_hash tb [Hashed (m' ! (s + lvl_start c k + 2 * j)),
                              Hashed (m' ! (s + lvl_start c k + 2 * j + 1))])
      \<and> (\<forall>k < halvings c. odd (lvl_count c k) \<longrightarrow>
            m' ! (s + lvl_start c k + lvl_count c k)
              = m' ! (s + lvl_start c k + lvl_count c k - 1))"
  using assms
proof (induction "halvings c" arbitrary: c s m t)
  case 0
  then have c1: "c = 1" using halvings_eq_0 [of c] by simp
  have "s + 1 < 2 ^ 64" using 0 by simp
  then have d: "build_levels tb t (word_of_nat s) (word_of_nat (s + 1)) m = Some m"
    by (rule build_levels_done)
  have h0: "halvings 1 = 0" by (simp add: halvings_0)
  show ?case unfolding c1 h0 using d by simp
next
  case (Suc h)
  from halvings_eq_Suc [OF Suc.hyps(2) [symmetric]]
  have c2: "2 \<le> c" and h: "h = halvings ((c + 1) div 2)" by simp_all
  let ?e = "c + c mod 2" and ?c' = "(c + 1) div 2"
  let ?s' = "s + ?e"
  have hc: "halvings c = Suc h" using Suc.hyps(2) by simp
  have start: "lvl_start c (Suc k) = ?e + lvl_start ?c' k" for k by simp
  have count: "lvl_count c (Suc k) = lvl_count ?c' k" for k by simp
  have c'1: "1 \<le> ?c'" using c2 by simp
  have room0: "s + (?e + lvl_start ?c' h) + 1 \<le> length m"
    using Suc.prems(3) unfolding hc start h [symmetric] .
  have c'le: "?c' \<le> lvl_start ?c' h + 1" unfolding h by (rule count_le_lvl_start [OF c'1])
  have room1: "s + ?e + ?c' \<le> length m" using room0 c'le by simp
  have e_half: "?e div 2 = ?c'" by presburger
  have e_bound: "c \<le> ?e" "?e \<le> c + 1" "even ?e" by presburger+
  let ?m1 = "if odd c then m[s + c := m ! (s + c - 1)] else m"
  have len1: "length ?m1 = length m" by simp
  have step: "build_levels tb t (word_of_nat s) (word_of_nat (s + c)) m
     = (case build_pairs tb (word_of_nat s) (word_of_nat ?s') 0 ?m1 of
          None \<Rightarrow> None
        | Some m2 \<Rightarrow>
            build_levels tb (word_of_nat s) (word_of_nat ?s') (word_of_nat (?s' + ?c')) m2)"
    by (rule build_levels_step [OF c2 Suc.prems(2) room1 Suc.prems(4)])
  \<comment> \<open>the pairs of this level\<close>
  have bs: "s < 2 ^ 64" "?s' < 2 ^ 64" using room1 Suc.prems(4) by simp_all
  have ul: "unat (word_of_nat s :: u64) = s" by (rule unat_of_nat64 [OF bs(1)])
  have ur: "unat (word_of_nat ?s' :: u64) = ?s'" by (rule unat_of_nat64 [OF bs(2)])
  have lr: "(word_of_nat s :: u64) \<le> word_of_nat ?s'" by (simp only: word_le_nat_alt ul ur)
  have "unat (word_of_nat ?s' - word_of_nat s :: u64) = ?e"
    using unat_sub [OF lr] unfolding ul ur by simp
  then have uh: "unat (drop_bit 1 (word_of_nat ?s' - word_of_nat s :: u64)) = ?c'"
    unfolding unat_drop_bit_1 using e_half by simp
  have room_p: "unat (word_of_nat ?s' :: u64)
        + unat (drop_bit 1 (word_of_nat ?s' - word_of_nat s :: u64)) \<le> length ?m1"
    unfolding ur uh len1 by (rule room1)
  have small1: "length ?m1 < 2 ^ 63" unfolding len1 by (rule Suc.prems(4))
  have i0: "unat (0 :: u64) \<le> unat (drop_bit 1 (word_of_nat ?s' - word_of_nat s :: u64))" by simp
  from build_pairs_spec [OF lr room_p small1 i0, where tb = tb]
  obtain m2 where m2: "build_pairs tb (word_of_nat s) (word_of_nat ?s') 0 ?m1 = Some m2"
    and len2: "length m2 = length m"
    and p2: "\<forall>p < length m. m2 ! p =
              (if ?s' \<le> p \<and> p < ?s' + ?c'
               then node_hash tb [Hashed (?m1 ! (s + 2 * (p - ?s'))),
                                  Hashed (?m1 ! (s + 2 * (p - ?s') + 1))]
               else ?m1 ! p)"
    unfolding ur uh ul len1 by auto
  \<comment> \<open>the levels above\<close>
  have room2: "?s' + lvl_start ?c' (halvings ?c') + 1 \<le> length m2"
    unfolding len2 h [symmetric] using room0 by simp
  have small2: "length m2 < 2 ^ 63" unfolding len2 by (rule Suc.prems(4))
  have es': "even ?s'" using Suc.prems(2) e_bound(3) by simp
  from Suc.hyps(1) [OF h c'1 es' room2 small2, where t = "word_of_nat s"]
  obtain m' where m': "build_levels tb (word_of_nat s) (word_of_nat ?s') (word_of_nat (?s' + ?c')) m2
        = Some m'"
    and len': "length m' = length m2"
    and keep: "\<forall>p < ?s' + ?c'. m' ! p = m2 ! p"
    and pairs: "\<forall>k < halvings ?c'. \<forall>j < lvl_count ?c' (Suc k).
            m' ! (?s' + lvl_start ?c' (Suc k) + j)
              = node_hash tb [Hashed (m' ! (?s' + lvl_start ?c' k + 2 * j)),
                              Hashed (m' ! (?s' + lvl_start ?c' k + 2 * j + 1))]"
    and dups: "\<forall>k < halvings ?c'. odd (lvl_count ?c' k) \<longrightarrow>
            m' ! (?s' + lvl_start ?c' k + lvl_count ?c' k)
              = m' ! (?s' + lvl_start ?c' k + lvl_count ?c' k - 1)"
    by blast
  have res: "build_levels tb t (word_of_nat s) (word_of_nat (s + c)) m = Some m'"
    unfolding step m2 using m' by simp
  have lenr: "length m' = length m" using len' len2 by simp
  \<comment> \<open>the slots below the next level are those after the copy\<close>
  have low: "m' ! p = ?m1 ! p" if "p < ?s'" for p
  proof -
    have "p < length m" using that room1 by simp
    then have "m2 ! p = ?m1 ! p" using p2 that by simp
    moreover have "m' ! p = m2 ! p" using keep that by simp
    ultimately show ?thesis by simp
  qed
  have keep0: "\<forall>p < s + c. m' ! p = m ! p"
  proof (intro allI impI)
    fix p assume p: "p < s + c"
    then have "m' ! p = ?m1 ! p" using low e_bound(1) by simp
    then show "m' ! p = m ! p" using p by simp
  qed
  have pair0: "m' ! (?s' + j) = node_hash tb [Hashed (m' ! (s + 2 * j)), Hashed (m' ! (s + 2 * j + 1))]"
    if j: "j < ?c'" for j
  proof -
    have in_len: "?s' + j < length m" using j room1 by simp
    have "m' ! (?s' + j) = m2 ! (?s' + j)" using keep j by simp
    also have "\<dots> = node_hash tb [Hashed (?m1 ! (s + 2 * j)), Hashed (?m1 ! (s + 2 * j + 1))]"
      using p2 in_len j by simp
    also have "?m1 ! (s + 2 * j) = m' ! (s + 2 * j)"
      using low [of "s + 2 * j"] j e_half by simp
    also have "?m1 ! (s + 2 * j + 1) = m' ! (s + 2 * j + 1)"
      using low [of "s + 2 * j + 1"] j e_half by simp
    finally show ?thesis .
  qed
  have pairs0: "\<forall>k < halvings c. \<forall>j < lvl_count c (Suc k).
            m' ! (s + lvl_start c (Suc k) + j)
              = node_hash tb [Hashed (m' ! (s + lvl_start c k + 2 * j)),
                              Hashed (m' ! (s + lvl_start c k + 2 * j + 1))]"
  proof (intro allI impI)
    fix k j assume k: "k < halvings c" and j: "j < lvl_count c (Suc k)"
    show "m' ! (s + lvl_start c (Suc k) + j)
              = node_hash tb [Hashed (m' ! (s + lvl_start c k + 2 * j)),
                              Hashed (m' ! (s + lvl_start c k + 2 * j + 1))]"
    proof (cases k)
      case 0
      then show ?thesis using pair0 [of j] j by simp
    next
      case (Suc k')
      then have "k' < halvings ?c'" using k hc h by simp
      moreover have "j < lvl_count ?c' (Suc k')" using j Suc by simp
      ultimately have "m' ! (?s' + lvl_start ?c' (Suc k') + j)
              = node_hash tb [Hashed (m' ! (?s' + lvl_start ?c' k' + 2 * j)),
                              Hashed (m' ! (?s' + lvl_start ?c' k' + 2 * j + 1))]"
        using pairs by blast
      then show ?thesis unfolding Suc start by (simp add: add.assoc)
    qed
  qed
  have dups0: "\<forall>k < halvings c. odd (lvl_count c k) \<longrightarrow>
            m' ! (s + lvl_start c k + lvl_count c k)
              = m' ! (s + lvl_start c k + lvl_count c k - 1)"
  proof (intro allI impI)
    fix k assume k: "k < halvings c" and o: "odd (lvl_count c k)"
    show "m' ! (s + lvl_start c k + lvl_count c k)
              = m' ! (s + lvl_start c k + lvl_count c k - 1)"
    proof (cases k)
      case 0
      then have oc: "odd c" using o by simp
      then have e: "?e = c + 1" by presburger
      have in_len: "s + c < length m" using room1 e by simp
      have "m' ! (s + c) = ?m1 ! (s + c)" using low [of "s + c"] e by simp
      also have "\<dots> = m ! (s + c - 1)" using oc in_len by simp
      also have "\<dots> = m' ! (s + c - 1)" using keep0 c2 by simp
      finally show ?thesis using 0 by simp
    next
      case (Suc k')
      then have "k' < halvings ?c'" using k hc h by simp
      moreover have "odd (lvl_count ?c' k')" using o Suc by simp
      ultimately have "m' ! (?s' + lvl_start ?c' k' + lvl_count ?c' k')
              = m' ! (?s' + lvl_start ?c' k' + lvl_count ?c' k' - 1)"
        using dups by blast
      then show ?thesis unfolding Suc start count by (simp add: add.assoc)
    qed
  qed
  show ?case using res lenr keep0 pairs0 dups0 by blast
qed

subsection \<open>Leaves, sizes and layer offsets\<close>

lemma fill_leaves_spec:
  assumes "unat it + length xs \<le> length m" "length m < 2 ^ 63"
  shows "\<exists>m'. fill_leaves tb xs it m = Some m' \<and> length m' = length m
      \<and> (\<forall>p < length m. m' ! p =
            (if unat it \<le> p \<and> p < unat it + length xs
             then leaf_hash tb [Data (xs ! (p - unat it))] else m ! p))"
  using assms
proof (induction xs arbitrary: it m)
  case Nil
  then show ?case by auto
next
  case (Cons x xs)
  let ?m1 = "m[unat it := leaf_hash tb [Data x]]"
  have in_len: "unat it < length m" using Cons.prems(1) by simp
  have put: "elem_put m it (leaf_hash tb [Data x]) = Some ?m1"
    using in_len by (rule elem_put_upd)
  have "unat it + 1 < 2 ^ 64" using in_len Cons.prems(2) by simp
  then have s: "unat (it + 1) = Suc (unat it)" by (simp add: unat_word_ariths)
  have room: "unat (it + 1) + length xs \<le> length ?m1" using Cons.prems(1) s by simp
  have small: "length ?m1 < 2 ^ 63" using Cons.prems(2) by simp
  from Cons.IH [OF room small]
  obtain m' where m': "fill_leaves tb xs (it + 1) ?m1 = Some m'" "length m' = length ?m1"
    and c: "\<forall>p < length ?m1. m' ! p =
            (if unat (it + 1) \<le> p \<and> p < unat (it + 1) + length xs
             then leaf_hash tb [Data (xs ! (p - unat (it + 1)))] else ?m1 ! p)"
    by blast
  have "m' ! p = (if unat it \<le> p \<and> p < unat it + length (x # xs)
             then leaf_hash tb [Data ((x # xs) ! (p - unat it))] else m ! p)"
    if p: "p < length m" for p
  proof -
    from c p have cp: "m' ! p =
            (if Suc (unat it) \<le> p \<and> p < Suc (unat it) + length xs
             then leaf_hash tb [Data (xs ! (p - Suc (unat it)))] else ?m1 ! p)"
      unfolding s by simp
    show ?thesis
    proof (cases "Suc (unat it) \<le> p \<and> p < Suc (unat it) + length xs")
      case True
      then have C2: "unat it \<le> p \<and> p < unat it + length (x # xs)" by simp
      have e: "(x # xs) ! (p - unat it) = xs ! (p - Suc (unat it))"
        using True by (simp add: nth_Cons') 
      show ?thesis by (simp only: cp if_P [OF True] if_P [OF C2] e)
    next
      case F1: False
      have mp: "m' ! p = ?m1 ! p" by (simp only: cp if_not_P [OF F1])
      show ?thesis
      proof (cases "p = unat it")
        case True
        have v: "?m1 ! p = leaf_hash tb [Data x]" using True in_len by simp
        have C2: "unat it \<le> p \<and> p < unat it + length (x # xs)" using True by simp
        have e: "(x # xs) ! (p - unat it) = x" using True by simp
        show ?thesis by (simp only: mp v if_P [OF C2] e)
      next
        case False
        then have v: "?m1 ! p = m ! p" by simp
        have C2: "\<not> (unat it \<le> p \<and> p < unat it + length (x # xs))"
          using F1 False by simp
        show ?thesis by (simp only: mp v if_not_P [OF C2])
      qed
    qed
  qed
  then show ?case using m' put by simp
qed

lemma of_nat_round_even:
  assumes "c < 2 ^ 63"
  shows "(word_of_nat c :: u64) + (word_of_nat c AND 1) = word_of_nat (c + c mod 2)"
proof -
  have u: "unat (word_of_nat c :: u64) = c" using assms by (intro unat_of_nat64) simp
  have "unat (word_of_nat c :: u64) < 2 ^ 63" unfolding u by (rule assms)
  then have "unat ((word_of_nat c :: u64) + (word_of_nat c AND 1)) = c + c mod 2"
    using unat_round_even [of "word_of_nat c"] unfolding u by simp
  moreover have "unat (word_of_nat (c + c mod 2) :: u64) = c + c mod 2"
    using assms by (intro unat_of_nat64) simp
  ultimately show ?thesis by (simp only: word_unat_eq_iff)
qed

lemma of_nat_half_even:
  assumes "c < 2 ^ 63"
  shows "drop_bit 1 (word_of_nat (c + c mod 2) :: u64) = word_of_nat ((c + 1) div 2)"
proof -
  have "unat (word_of_nat (c + c mod 2) :: u64) = c + c mod 2"
    using assms by (intro unat_of_nat64) simp
  then have "unat (drop_bit 1 (word_of_nat (c + c mod 2) :: u64)) = (c + c mod 2) div 2"
    by (simp only: unat_drop_bit_1)
  also have "\<dots> = (c + 1) div 2" by presburger
  also have "\<dots> = unat (word_of_nat ((c + 1) div 2) :: u64)"
    using assms by (intro unat_of_nat64 [symmetric]) simp
  finally show ?thesis by (simp only: word_unat_eq_iff)
qed

lemma calc_tree_size_loop_lvl:
  assumes "c < 2 ^ 63"
  shows "calc_tree_size_loop (word_of_nat c) s = s + word_of_nat (lvl_start c (halvings c))"
  using assms
proof (induction "halvings c" arbitrary: c s)
  case 0
  then have c: "c \<le> 1" using halvings_eq_0 [of c] by simp
  have "unat (word_of_nat c :: u64) = c" using 0 by (intro unat_of_nat64) simp
  then have "\<not> 1 < (word_of_nat c :: u64)" using c by (simp only: word_less_nat_alt) simp
  then have "calc_tree_size_loop (word_of_nat c) s = s"
    by (subst calc_tree_size_loop.simps) (simp only: if_False)
  then show ?case using 0 by simp
next
  case (Suc h)
  from halvings_eq_Suc [OF Suc.hyps(2) [symmetric]]
  have c2: "2 \<le> c" and h: "h = halvings ((c + 1) div 2)" by simp_all
  have u: "unat (word_of_nat c :: u64) = c" using Suc.prems by (intro unat_of_nat64) simp
  have gt: "1 < (word_of_nat c :: u64)" using c2 by (simp only: word_less_nat_alt u) simp
  have c': "(c + 1) div 2 < 2 ^ 63" using Suc.prems by simp
  have "calc_tree_size_loop (word_of_nat c) s
      = calc_tree_size_loop (word_of_nat ((c + 1) div 2)) (s + word_of_nat (c + c mod 2))"
    by (subst calc_tree_size_loop.simps)
      (simp only: gt if_True Let_def of_nat_round_even [OF Suc.prems] of_nat_half_even [OF Suc.prems])
  also have "\<dots> = s + word_of_nat (c + c mod 2)
        + word_of_nat (lvl_start ((c + 1) div 2) (halvings ((c + 1) div 2)))"
    by (rule Suc.hyps(1) [OF h c'])
  also have "\<dots> = s + word_of_nat (lvl_start c (Suc h))" unfolding h by simp
  finally show ?case unfolding Suc.hyps(2) [symmetric] .
qed

lemma get_layer_loop_lvl:
  assumes "k \<le> 64" "c < 2 ^ 63"
  shows "get_layer_loop (word_of_nat k) off (word_of_nat (c + c mod 2))
       = (off + word_of_nat (lvl_start c k),
          word_of_nat (lvl_count c k + lvl_count c k mod 2))"
  using assms
proof (induction k arbitrary: c off)
  case 0
  then show ?case by (simp add: get_layer_loop_0)
next
  case (Suc k)
  have "unat (word_of_nat (Suc k) :: u64) = Suc k" using Suc.prems(1) by (intro unat_of_nat64) simp
  then have nz: "(word_of_nat (Suc k) :: u64) \<noteq> 0" by auto
  have p: "(word_of_nat (Suc k) :: u64) - 1 = word_of_nat k" by simp
  have c': "(c + 1) div 2 < 2 ^ 63" using Suc.prems by simp
  have k: "k \<le> 64" using Suc.prems by simp
  let ?c' = "(c + 1) div 2"
  have n1: "drop_bit 1 (word_of_nat (c + c mod 2) :: u64)
        + (drop_bit 1 (word_of_nat (c + c mod 2) :: u64) AND 1) = word_of_nat (?c' + ?c' mod 2)"
    unfolding of_nat_half_even [OF Suc.prems(2)] by (rule of_nat_round_even [OF c'])
  have "get_layer_loop (word_of_nat (Suc k)) off (word_of_nat (c + c mod 2))
      = get_layer_loop (word_of_nat k) (off + word_of_nat (c + c mod 2)) (word_of_nat (?c' + ?c' mod 2))"
    unfolding get_layer_loop_step [OF nz] p n1 ..
  also have "\<dots> = (off + word_of_nat (c + c mod 2) + word_of_nat (lvl_start ?c' k),
          word_of_nat (lvl_count ?c' k + lvl_count ?c' k mod 2))"
    by (rule Suc.IH [OF k c'])
  finally show ?case by simp
qed

lemma lvl_count_le: "lvl_count c k \<le> c"
proof (induction k arbitrary: c)
  case 0
  show ?case by simp
next
  case (Suc k)
  have "lvl_count ((c + 1) div 2) k \<le> (c + 1) div 2" by (rule Suc.IH)
  then show ?case by simp
qed

lemma lvl_start_le: "lvl_start c k \<le> k * (c + 1)"
proof (induction k arbitrary: c)
  case 0
  show ?case by simp
next
  case (Suc k)
  have "lvl_start ((c + 1) div 2) k \<le> k * ((c + 1) div 2 + 1)" by (rule Suc.IH)
  also have "\<dots> \<le> k * (c + 1)" by (intro mult_le_mono2) simp
  finally show ?case by simp
qed

lemma lvl_count_top: "1 \<le> c \<Longrightarrow> lvl_count c (halvings c) = 1"
proof (induction "halvings c" arbitrary: c)
  case 0
  then have "c = 1" using halvings_eq_0 [of c] by simp
  then show ?case by (simp add: halvings_0)
next
  case (Suc h)
  from halvings_eq_Suc [OF Suc.hyps(2) [symmetric]]
  have c2: "2 \<le> c" and h: "h = halvings ((c + 1) div 2)" by simp_all
  have "lvl_count ((c + 1) div 2) (halvings ((c + 1) div 2)) = 1"
    using c2 by (intro Suc.hyps(1) [OF h]) simp
  then show ?case unfolding Suc.hyps(2) [symmetric] h by simp
qed

lemma lvl_count_ge_2: "k < halvings c \<Longrightarrow> 2 \<le> lvl_count c k"
proof (induction k arbitrary: c)
  case 0
  then show ?case using halvings_0 [of c] by (cases "c \<le> 1") simp_all
next
  case (Suc k)
  then have "2 \<le> c" using halvings_0 [of c] by (cases "c \<le> 1") simp_all
  then have "halvings c = Suc (halvings ((c + 1) div 2))" by (rule halvings_Suc)
  with Suc.prems have "k < halvings ((c + 1) div 2)" by simp
  then show ?case using Suc.IH by simp
qed

subsection \<open>\<open>build\<close> and \<open>verify\<close>\<close>

lemma verify_eq_exists:
  assumes "unat (LEAFS_N t) \<le> length (m_data t)"
  shows "verify t data = Some (\<exists>i < unat (LEAFS_N t). m_data t ! i = leaf_hash t data)"
proof -
  obtain r where f: "find_leaf t data = Some r"
    and c: "if \<exists>i < unat (LEAFS_N t). m_data t ! i = leaf_hash t data
         then r < LEAFS_N t \<and> m_data t ! unat r = leaf_hash t data
              \<and> (\<forall>j < unat r. m_data t ! j \<noteq> leaf_hash t data)
         else r = - 1"
    using find_leaf_loop_first [OF assms, of data] by blast
  have "(\<exists>i < unat (LEAFS_N t). m_data t ! i = leaf_hash t data) \<longleftrightarrow> r \<noteq> - 1"
  proof (cases "\<exists>i < unat (LEAFS_N t). m_data t ! i = leaf_hash t data")
    case True
    have "r < LEAFS_N t" using c unfolding if_P [OF True] by simp
    then have "r \<noteq> - 1" by auto
    with True show ?thesis by simp
  next
    case False
    have "r = - 1" using c unfolding if_not_P [OF False] .
    with False show ?thesis by simp
  qed
  then show ?thesis by (simp add: verify_def f)
qed

lemma unat_SIZE:
  assumes "unat (LEAFS_N t) < 2 ^ 32"
  shows "unat (SIZE t) = lvl_start (unat (LEAFS_N t)) (halvings (unat (LEAFS_N t))) + 1"
proof -
  let ?n = "unat (LEAFS_N t)"
  have n63: "?n < 2 ^ 63" using assms by simp
  have "halvings ?n \<le> 64" using assms by (intro halvings_le_64) simp
  then have "halvings ?n * (?n + 1) \<le> 64 * 2 ^ 32" using assms by (intro mult_mono) simp_all
  then have b: "lvl_start ?n (halvings ?n) + 1 < 2 ^ 64"
    using lvl_start_le [of ?n "halvings ?n"] by simp
  have "SIZE t = calc_tree_size_loop (word_of_nat ?n) 1" by (simp add: SIZE_def calc_tree_size_def)
  also have "\<dots> = 1 + word_of_nat (lvl_start ?n (halvings ?n))"
    by (rule calc_tree_size_loop_lvl [OF n63])
  also have "\<dots> = word_of_nat (lvl_start ?n (halvings ?n) + 1)" by simp
  finally show ?thesis using unat_of_nat64 [OF b] by simp
qed

lemma build_spec:
  assumes N: "2 \<le> LEAFS_N t" "LEAFS_N t < 2 ^ 32"
    and items: "length items = unat (LEAFS_N t)"
    and len: "length (m_data t) = unat (SIZE t)"
  shows "\<exists>m'. build t items = Some (t\<lparr>m_data := m'\<rparr>) \<and> length m' = unat (SIZE t)
      \<and> (\<forall>j < unat (LEAFS_N t). m' ! j = leaf_hash t [Data (items ! j)])
      \<and> (\<forall>k < halvings (unat (LEAFS_N t)). \<forall>j < lvl_count (unat (LEAFS_N t)) (Suc k).
            m' ! (lvl_start (unat (LEAFS_N t)) (Suc k) + j)
              = node_hash t [Hashed (m' ! (lvl_start (unat (LEAFS_N t)) k + 2 * j)),
                             Hashed (m' ! (lvl_start (unat (LEAFS_N t)) k + 2 * j + 1))])"
proof -
  let ?n = "unat (LEAFS_N t)" and ?m = "m_data t"
  let ?K = "halvings ?n"
  have un: "?n < 2 ^ 32" "2 \<le> ?n" using N by (simp_all add: word_less_nat_alt word_le_nat_alt)
  have size: "unat (SIZE t) = lvl_start ?n ?K + 1" using un(1) by (rule unat_SIZE)
  have "?K \<le> 64" using un(1) by (intro halvings_le_64) simp
  then have "?K * (?n + 1) \<le> 64 * 2 ^ 32" using un(1) by (intro mult_mono) simp_all
  then have small: "length ?m < 2 ^ 63"
    unfolding len size using lvl_start_le [of ?n ?K] by simp
  have n1: "1 \<le> ?n" using un(2) by simp
  have nle: "?n \<le> length ?m" unfolding len size by (rule count_le_lvl_start [OF n1])
  have ne1: "LEAFS_N t \<noteq> 1" using un(2) by auto
  have room_f: "unat (0 :: u64) + length items \<le> length ?m" using nle items by simp
  from fill_leaves_spec [OF room_f small, where tb = t]
  obtain m1 where m1: "fill_leaves t items 0 ?m = Some m1" and len1: "length m1 = length ?m"
    and leaves: "\<forall>p < length ?m. m1 ! p =
            (if unat (0 :: u64) \<le> p \<and> p < unat (0 :: u64) + length items
             then leaf_hash t [Data (items ! (p - unat (0 :: u64)))] else ?m ! p)"
    by blast
  have lv: "m1 ! p = leaf_hash t [Data (items ! p)]" if "p < ?n" for p
    using leaves that nle items by simp
  have room: "0 + lvl_start ?n ?K + 1 \<le> length m1" unfolding len1 len size by simp
  have small1: "length m1 < 2 ^ 63" unfolding len1 by (rule small)
  from build_levels_spec [OF n1 _ room small1, where tb = t and t = 0]
  obtain m' where m': "build_levels t 0 (word_of_nat 0) (word_of_nat (0 + ?n)) m1 = Some m'"
    and len': "length m' = length m1"
    and keep: "\<forall>p < 0 + ?n. m' ! p = m1 ! p"
    and pairs: "\<forall>k < ?K. \<forall>j < lvl_count ?n (Suc k).
            m' ! (0 + lvl_start ?n (Suc k) + j)
              = node_hash t [Hashed (m' ! (0 + lvl_start ?n k + 2 * j)),
                              Hashed (m' ! (0 + lvl_start ?n k + 2 * j + 1))]"
    by auto
  have "build_levels t 0 0 (LEAFS_N t) m1 = Some m'" using m' by simp
  then have b: "build t items = Some (t\<lparr>m_data := m'\<rparr>)"
    using ne1 m1 by (simp add: build_def)
  have l: "length m' = unat (SIZE t)" using len' len1 len by simp
  have lf: "\<forall>j < ?n. m' ! j = leaf_hash t [Data (items ! j)]" using keep lv by simp
  have pr: "\<forall>k < ?K. \<forall>j < lvl_count ?n (Suc k).
            m' ! (lvl_start ?n (Suc k) + j)
              = node_hash t [Hashed (m' ! (lvl_start ?n k + 2 * j)),
                             Hashed (m' ! (lvl_start ?n k + 2 * j + 1))]"
    using pairs by simp
  show ?thesis using b l lf pr by blast
qed

lemma built_tree_verifies_items:
  assumes N: "2 \<le> LEAFS_N t" "LEAFS_N t < 2 ^ 32"
    and items: "length items = unat (LEAFS_N t)"
    and len: "length (m_data t) = unat (SIZE t)"
  shows "\<exists>t'. build t items = Some t'
      \<and> (\<forall>d \<in> set items. verify t' [Data d] = Some True)
      \<and> (\<forall>d. (\<forall>x \<in> set items. leaf_hash t [Data x] \<noteq> leaf_hash t [Data d])
              \<longrightarrow> verify t' [Data d] = Some False)"
proof -
  let ?n = "unat (LEAFS_N t)"
  from build_spec [OF assms]
  obtain m' where b: "build t items = Some (t\<lparr>m_data := m'\<rparr>)" and l: "length m' = unat (SIZE t)"
    and lf: "\<forall>j < ?n. m' ! j = leaf_hash t [Data (items ! j)]"
    by blast
  let ?t' = "t\<lparr>m_data := m'\<rparr>"
  have un: "?n < 2 ^ 32" "1 \<le> ?n" using N by (simp_all add: word_less_nat_alt word_le_nat_alt)
  have "unat (SIZE t) = lvl_start ?n (halvings ?n) + 1" using un(1) by (rule unat_SIZE)
  then have nle: "unat (LEAFS_N ?t') \<le> length (m_data ?t')"
    using count_le_lvl_start [OF un(2)] l by simp
  have lh: "leaf_hash ?t' x = leaf_hash t x" for x by (simp add: leaf_hash_def)
  have v: "verify ?t' [Data d] = Some (\<exists>i < ?n. m' ! i = leaf_hash t [Data d])" for d
    using verify_eq_exists [OF nle, of "[Data d]"] by (simp add: lh)
  have pos: "verify ?t' [Data d] = Some True" if "d \<in> set items" for d
  proof -
    from that obtain i where "i < length items" "items ! i = d" by (auto simp: in_set_conv_nth)
    then have "i < ?n \<and> m' ! i = leaf_hash t [Data d]" using lf items by auto
    then show ?thesis unfolding v by blast
  qed
  have neg: "verify ?t' [Data d] = Some False"
    if "\<forall>x \<in> set items. leaf_hash t [Data x] \<noteq> leaf_hash t [Data d]" for d
  proof -
    have "\<not> (\<exists>i < ?n. m' ! i = leaf_hash t [Data d])"
    proof
      assume "\<exists>i < ?n. m' ! i = leaf_hash t [Data d]"
      then obtain i where i: "i < ?n" "m' ! i = leaf_hash t [Data d]" by blast
      then have "items ! i \<in> set items" using items by simp
      with that i lf show False by auto
    qed
    then show ?thesis unfolding v by simp
  qed
  show ?thesis using b pos neg by blast
qed

subsection \<open>Siblings and layer starts\<close>

lemma lvl_count_Suc_top: "lvl_count c (Suc k) = (lvl_count c k + 1) div 2"
proof (induction k arbitrary: c)
  case 0
  show ?case by simp
next
  case (Suc k)
  have "lvl_count c (Suc (Suc k)) = lvl_count ((c + 1) div 2) (Suc k)" by simp
  also have "\<dots> = (lvl_count ((c + 1) div 2) k + 1) div 2" by (rule Suc.IH)
  finally show ?case by simp
qed

lemma lvl_start_Suc_top:
  "lvl_start c (Suc k) = lvl_start c k + (lvl_count c k + lvl_count c k mod 2)"
proof (induction k arbitrary: c)
  case 0
  show ?case by simp
next
  case (Suc k)
  have "lvl_start c (Suc (Suc k)) = (c + c mod 2) + lvl_start ((c + 1) div 2) (Suc k)" by simp
  also have "lvl_start ((c + 1) div 2) (Suc k)
      = lvl_start ((c + 1) div 2) k
        + (lvl_count ((c + 1) div 2) k + lvl_count ((c + 1) div 2) k mod 2)"
    by (rule Suc.IH)
  finally show ?case by simp
qed

lemma lvl_start_mono: "k \<le> k' \<Longrightarrow> lvl_start c k \<le> lvl_start c k'"
proof (induction k' arbitrary: k)
  case 0
  then show ?case by simp
next
  case (Suc k')
  show ?case
  proof (cases "k = Suc k'")
    case True
    then show ?thesis by simp
  next
    case False
    then have "k \<le> k'" using Suc.prems by simp
    then have "lvl_start c k \<le> lvl_start c k'" by (rule Suc.IH)
    then show ?thesis unfolding lvl_start_Suc_top by simp
  qed
qed

lemma sibling_less:
  "j < c \<Longrightarrow> sibling j < c + c mod 2"
  unfolding sibling_def by (cases "odd j") (simp, presburger)

lemma sibling_pair:
  "odd j \<Longrightarrow> sibling j = 2 * (j div 2) \<and> j = 2 * (j div 2) + 1"
  "even j \<Longrightarrow> j = 2 * (j div 2) \<and> sibling j = 2 * (j div 2) + 1"
  unfolding sibling_def by presburger+

lemma of_nat_sibling:
  assumes "j < 2 ^ 63"
  shows "(word_of_nat j :: u64) + (if (word_of_nat j :: u64) AND 1 \<noteq> 0 then - 1 else 1)
           = word_of_nat (sibling j)"
    and "((word_of_nat j :: u64) AND 1 \<noteq> 0) = odd j"
    and "drop_bit 1 (word_of_nat j :: u64) = word_of_nat (j div 2)"
proof -
  have u: "unat (word_of_nat j :: u64) = j" using assms by (intro unat_of_nat64) simp
  have "unat ((word_of_nat j :: u64) AND 1) = j mod 2" by (simp only: unat_and_one u)
  then have "(word_of_nat j :: u64) AND 1 = 0 \<longleftrightarrow> even j"
    by (metis unat_eq_0 dvd_eq_mod_eq_0)
  then show o: "((word_of_nat j :: u64) AND 1 \<noteq> 0) = odd j" by simp
  show "(word_of_nat j :: u64) + (if (word_of_nat j :: u64) AND 1 \<noteq> 0 then - 1 else 1)
           = word_of_nat (sibling j)"
  proof (cases "odd j")
    case True
    then have "1 \<le> j" by (cases j) simp_all 
    then have "(word_of_nat j :: u64) - 1 = word_of_nat (j - 1)" by (simp add: of_nat_diff)
    then show ?thesis unfolding o sibling_def using True by simp
  next
    case False
    then show ?thesis unfolding o sibling_def by simp
  qed
  have "unat (drop_bit 1 (word_of_nat j :: u64)) = j div 2" by (simp only: unat_drop_bit_1 u)
  moreover have "unat (word_of_nat (j div 2) :: u64) = j div 2"
    using assms by (intro unat_of_nat64) simp
  ultimately show "drop_bit 1 (word_of_nat j :: u64) = word_of_nat (j div 2)"
    by (simp only: word_unat_eq_iff)
qed

lemma height_of_nat_halvings:
  assumes "unat n < 2 ^ 32"
  shows "height n = word_of_nat (halvings (unat n))"
proof -
  have "word_of_nat (unat (height n)) = height n" by simp
  then show ?thesis unfolding unat_height_halvings [OF assms] by simp
qed

lemma get_layer_start:
  assumes n: "unat (LEAFS_N t) < 2 ^ 32" and i: "i \<le> halvings (unat (LEAFS_N t))"
  shows "fst (get_layer t (word_of_nat (halvings (unat (LEAFS_N t))) - word_of_nat i))
           = word_of_nat (lvl_start (unat (LEAFS_N t)) i)"
proof -
  let ?n = "unat (LEAFS_N t)"
  let ?K = "halvings ?n"
  have h: "height (LEAFS_N t) = word_of_nat ?K" using n by (rule height_of_nat_halvings)
  have n63: "?n < 2 ^ 63" using n by simp
  have K: "?K \<le> 64" using n by (intro halvings_le_64) simp
  then have i64: "i \<le> 64" using i by simp
  have N: "LEAFS_N t = word_of_nat ?n" by simp
  have n0: "LEAFS_N t + (LEAFS_N t AND 1) = word_of_nat (?n + ?n mod 2)"
    using of_nat_round_even [OF n63] by simp
  have "height (LEAFS_N t) - (word_of_nat ?K - word_of_nat i) = (word_of_nat i :: u64)"
    unfolding h by simp
  then have "fst (get_layer t (word_of_nat ?K - word_of_nat i))
      = fst (get_layer_loop (word_of_nat i) 0 (word_of_nat (?n + ?n mod 2)))"
    by (simp add: get_layer_def Let_def n0)
  also have "\<dots> = word_of_nat (lvl_start ?n i)"
    unfolding get_layer_loop_lvl [OF i64 n63] by simp
  finally show ?thesis .
qed

subsection \<open>The proof path\<close>

lemma get_proof_loop_spec:
  assumes n: "unat (LEAFS_N t) < 2 ^ 32"
    and len: "length (m_data t) = lvl_start (unat (LEAFS_N t)) (halvings (unat (LEAFS_N t))) + 1"
    and i: "i \<le> halvings (unat (LEAFS_N t))"
    and j: "j < lvl_count (unat (LEAFS_N t)) i"
    and pf: "length pf = halvings (unat (LEAFS_N t)) + 1"
  shows "\<exists>pf'. get_proof_loop t (word_of_nat (halvings (unat (LEAFS_N t)))) (word_of_nat i)
                  (word_of_nat j) pf = Some pf'
      \<and> length pf' = halvings (unat (LEAFS_N t)) + 1
      \<and> (\<forall>i' < halvings (unat (LEAFS_N t)) + 1. pf' ! i' =
            (if i \<le> i' \<and> i' < halvings (unat (LEAFS_N t))
             then (m_data t ! (lvl_start (unat (LEAFS_N t)) i' + sibling (j div 2 ^ (i' - i))),
                   odd (j div 2 ^ (i' - i)))
             else pf ! i'))"
  using i j pf
proof (induction "halvings (unat (LEAFS_N t)) - i" arbitrary: i j pf)
  case 0
  let ?K = "halvings (unat (LEAFS_N t))"
  have iK: "i = ?K" using 0 by simp
  have "\<not> (word_of_nat i :: u64) < word_of_nat ?K" unfolding iK by simp
  then have "get_proof_loop t (word_of_nat ?K) (word_of_nat i) (word_of_nat j) pf = Some pf"
    by (subst get_proof_loop.simps) (simp only: if_False)
  then show ?case using 0 iK by auto
next
  case (Suc k)
  let ?n = "unat (LEAFS_N t)"
  let ?K = "halvings ?n"
  let ?m = "m_data t"
  have iK: "i < ?K" using Suc.hyps(2) by simp
  have K64: "?K \<le> 64" using n by (intro halvings_le_64) simp
  have ui: "unat (word_of_nat i :: u64) = i" using iK K64 by (intro unat_of_nat64) simp
  have uK: "unat (word_of_nat ?K :: u64) = ?K" using K64 by (intro unat_of_nat64) simp
  have lt: "(word_of_nat i :: u64) < word_of_nat ?K" using iK by (simp only: word_less_nat_alt ui uK)
  have cnt: "lvl_count ?n i \<le> ?n" by (rule lvl_count_le)
  have j63: "j < 2 ^ 63" using Suc.prems(2) cnt n by simp
  have sib: "sibling j < lvl_count ?n i + lvl_count ?n i mod 2"
    using Suc.prems(2) by (rule sibling_less)
  have "lvl_start ?n i + sibling j < lvl_start ?n (Suc i)"
    unfolding lvl_start_Suc_top using sib by simp
  also have "\<dots> \<le> lvl_start ?n ?K" using iK by (intro lvl_start_mono) simp
  finally have inb: "lvl_start ?n i + sibling j < length ?m" unfolding len by simp
  have "?K * (?n + 1) \<le> 64 * 2 ^ 32" using n K64 by (intro mult_mono) simp_all
  then have "length ?m < 2 ^ 64" unfolding len using lvl_start_le [of ?n ?K] by simp
  then have u_idx: "unat (word_of_nat (lvl_start ?n i + sibling j) :: u64) = lvl_start ?n i + sibling j"
    using inb by (intro unat_of_nat64) simp
  have idx: "fst (get_layer t (word_of_nat ?K - word_of_nat i))
        + (word_of_nat j + (if (word_of_nat j :: u64) AND 1 \<noteq> 0 then - 1 else 1))
      = word_of_nat (lvl_start ?n i + sibling j)"
    unfolding get_layer_start [OF n Suc.prems(1)] of_nat_sibling(1) [OF j63] by simp
  have rd: "elem_at ?m (fst (get_layer t (word_of_nat ?K - word_of_nat i))
        + (word_of_nat j + (if (word_of_nat j :: u64) AND 1 \<noteq> 0 then - 1 else 1)))
      = Some (?m ! (lvl_start ?n i + sibling j))"
    unfolding idx elem_at_def u_idx using inb by simp
  let ?v = "(?m ! (lvl_start ?n i + sibling j), odd j)"
  let ?pf1 = "pf[i := ?v]"
  have wr: "elem_put pf (word_of_nat i) (?m ! (lvl_start ?n i + sibling j), (word_of_nat j :: u64) AND 1 \<noteq> 0)
      = Some ?pf1"
    unfolding elem_put_def ui of_nat_sibling(2) [OF j63] using iK Suc.prems(3) by simp
  have nx: "(word_of_nat i :: u64) + 1 = word_of_nat (Suc i)" by simp
  have step: "get_proof_loop t (word_of_nat ?K) (word_of_nat i) (word_of_nat j) pf
      = get_proof_loop t (word_of_nat ?K) (word_of_nat (Suc i)) (word_of_nat (j div 2)) ?pf1"
    by (subst get_proof_loop.simps)
      (simp only: lt if_True rd wr option.case nx of_nat_sibling(3) [OF j63])
  have k: "k = ?K - Suc i" using Suc.hyps(2) by simp
  have i1: "Suc i \<le> ?K" using iK by simp
  have j1: "j div 2 < lvl_count ?n (Suc i)"
    unfolding lvl_count_Suc_top using Suc.prems(2) by simp
  have pf1: "length ?pf1 = ?K + 1" using Suc.prems(3) by simp
  from Suc.hyps(1) [OF k i1 j1 pf1]
  obtain pf' where r: "get_proof_loop t (word_of_nat ?K) (word_of_nat (Suc i))
                  (word_of_nat (j div 2)) ?pf1 = Some pf'"
    and l: "length pf' = ?K + 1"
    and c: "\<forall>i' < ?K + 1. pf' ! i' =
            (if Suc i \<le> i' \<and> i' < ?K
             then (?m ! (lvl_start ?n i' + sibling (j div 2 div 2 ^ (i' - Suc i))),
                   odd (j div 2 div 2 ^ (i' - Suc i)))
             else ?pf1 ! i')"
    by blast
  have "pf' ! i' =
            (if i \<le> i' \<and> i' < ?K
             then (?m ! (lvl_start ?n i' + sibling (j div 2 ^ (i' - i))), odd (j div 2 ^ (i' - i)))
             else pf ! i')" if i': "i' < ?K + 1" for i'
  proof -
    from c i' have cp: "pf' ! i' =
            (if Suc i \<le> i' \<and> i' < ?K
             then (?m ! (lvl_start ?n i' + sibling (j div 2 div 2 ^ (i' - Suc i))),
                   odd (j div 2 div 2 ^ (i' - Suc i)))
             else ?pf1 ! i')" by blast
    show ?thesis
    proof (cases "Suc i \<le> i' \<and> i' < ?K")
      case True
      then have C2: "i \<le> i' \<and> i' < ?K" by simp
      have "i' - i = Suc (i' - Suc i)" using True by arith
      then have e: "j div 2 ^ (i' - i) = j div 2 div 2 ^ (i' - Suc i)"
        by (simp add: div_mult2_eq)
      show ?thesis by (simp only: cp if_P [OF True] if_P [OF C2] e)
    next
      case F1: False
      have mp: "pf' ! i' = ?pf1 ! i'" by (simp only: cp if_not_P [OF F1])
      show ?thesis
      proof (cases "i' = i")
        case True
        have v: "?pf1 ! i' = ?v" using True iK Suc.prems(3) by simp
        have C2: "i \<le> i' \<and> i' < ?K" using True iK by simp
        have e: "j div 2 ^ (i' - i) = j" using True by simp
        show ?thesis by (simp only: mp v if_P [OF C2] e) (simp only: True)
      next
        case False
        then have v: "?pf1 ! i' = pf ! i'" by simp
        have C2: "\<not> (i \<le> i' \<and> i' < ?K)" using F1 False by linarith
        show ?thesis by (simp only: mp v if_not_P [OF C2])
      qed
    qed
  qed
  then show ?case using r l step by simp
qed

lemma path_fold:
  assumes pairs: "\<forall>k < halvings n. \<forall>j < lvl_count n (Suc k).
            m ! (lvl_start n (Suc k) + j)
              = node_hash t [Hashed (m ! (lvl_start n k + 2 * j)),
                             Hashed (m ! (lvl_start n k + 2 * j + 1))]"
    and n: "1 \<le> n" and i: "i \<le> halvings n" and j: "j < lvl_count n i"
  shows "foldl (ancestor_hash t) (m ! (lvl_start n i + j))
           (map (\<lambda>i'. (m ! (lvl_start n i' + sibling (j div 2 ^ (i' - i))), odd (j div 2 ^ (i' - i))))
              [i..<halvings n])
         = m ! (lvl_start n (halvings n))"
  using i j
proof (induction "halvings n - i" arbitrary: i j)
  case 0
  then have iK: "i = halvings n" by simp
  have "j < 1" using 0(3) unfolding iK lvl_count_top [OF n] .
  then show ?case unfolding iK by simp
next
  case (Suc k)
  then have iK: "i < halvings n" by simp
  have j1: "j div 2 < lvl_count n (Suc i)"
    unfolding lvl_count_Suc_top using Suc.prems(2) by simp
  have pr: "m ! (lvl_start n (Suc i) + j div 2)
      = node_hash t [Hashed (m ! (lvl_start n i + 2 * (j div 2))),
                     Hashed (m ! (lvl_start n i + 2 * (j div 2) + 1))]"
    using pairs iK j1 by blast
  have first: "ancestor_hash t (m ! (lvl_start n i + j)) (m ! (lvl_start n i + sibling j), odd j)
      = m ! (lvl_start n (Suc i) + j div 2)"
  proof (cases "odd j")
    case True
    from sibling_pair(1) [OF True]
    have s: "sibling j = 2 * (j div 2)" and e: "j = 2 * (j div 2) + 1" by simp_all
    have "ancestor_hash t (m ! (lvl_start n i + j)) (m ! (lvl_start n i + sibling j), odd j)
        = node_hash t [Hashed (m ! (lvl_start n i + sibling j)), Hashed (m ! (lvl_start n i + j))]"
      using True by (simp add: ancestor_hash_def)
    also have "\<dots> = node_hash t [Hashed (m ! (lvl_start n i + 2 * (j div 2))),
                     Hashed (m ! (lvl_start n i + 2 * (j div 2) + 1))]"
      using e unfolding s by (metis add.assoc) 
    finally show ?thesis unfolding pr .
  next
    case False
    then have ev: "even j" by simp
    from sibling_pair(2) [OF ev]
    have e: "j = 2 * (j div 2)" and s: "sibling j = 2 * (j div 2) + 1" by simp_all
    have "ancestor_hash t (m ! (lvl_start n i + j)) (m ! (lvl_start n i + sibling j), odd j)
        = node_hash t [Hashed (m ! (lvl_start n i + j)), Hashed (m ! (lvl_start n i + sibling j))]"
      using False by (simp add: ancestor_hash_def)
    also have "\<dots> = node_hash t [Hashed (m ! (lvl_start n i + 2 * (j div 2))),
                     Hashed (m ! (lvl_start n i + 2 * (j div 2) + 1))]"
      using e unfolding s by (metis add.assoc) 
    finally show ?thesis unfolding pr .
  qed
  have k: "k = halvings n - Suc i" using Suc.hyps(2) by simp
  have i1: "Suc i \<le> halvings n" using iK by simp
  have ih: "foldl (ancestor_hash t) (m ! (lvl_start n (Suc i) + j div 2))
           (map (\<lambda>i'. (m ! (lvl_start n i' + sibling (j div 2 div 2 ^ (i' - Suc i))),
                        odd (j div 2 div 2 ^ (i' - Suc i))))
              [Suc i..<halvings n])
         = m ! (lvl_start n (halvings n))"
    by (rule Suc.hyps(1) [OF k i1 j1])
  have maps: "map (\<lambda>i'. (m ! (lvl_start n i' + sibling (j div 2 ^ (i' - i))), odd (j div 2 ^ (i' - i))))
              [Suc i..<halvings n]
      = map (\<lambda>i'. (m ! (lvl_start n i' + sibling (j div 2 div 2 ^ (i' - Suc i))),
                        odd (j div 2 div 2 ^ (i' - Suc i))))
              [Suc i..<halvings n]"
  proof (rule map_cong [OF refl])
    fix i' assume "i' \<in> set [Suc i..<halvings n]"
    then have "Suc i \<le> i'" by simp
    then have "i' - i = Suc (i' - Suc i)" by arith
    then have "j div 2 ^ (i' - i) = j div 2 div 2 ^ (i' - Suc i)" by (simp add: div_mult2_eq)
    then show "(m ! (lvl_start n i' + sibling (j div 2 ^ (i' - i))), odd (j div 2 ^ (i' - i)))
        = (m ! (lvl_start n i' + sibling (j div 2 div 2 ^ (i' - Suc i))),
           odd (j div 2 div 2 ^ (i' - Suc i)))" by simp
  qed
  have split: "[i..<halvings n] = i # [Suc i..<halvings n]" using iK by (simp add: upt_conv_Cons)
  show ?case unfolding split by (simp only: list.map foldl_Cons diff_self_eq_0 power_0 div_by_1 first maps ih)
qed

subsection \<open>\<open>get_proof\<close> followed by \<open>verify_proof\<close>\<close>

lemma proof_round_trip:
  fixes t :: "('d, 'h::zero) FixedSizeTree"
  assumes N: "2 \<le> LEAFS_N t" "LEAFS_N t < 2 ^ 32"
    and len: "length (m_data t) = unat (SIZE t)"
    and pairs: "\<forall>k < halvings (unat (LEAFS_N t)). \<forall>j < lvl_count (unat (LEAFS_N t)) (Suc k).
            m_data t ! (lvl_start (unat (LEAFS_N t)) (Suc k) + j)
              = node_hash t [Hashed (m_data t ! (lvl_start (unat (LEAFS_N t)) k + 2 * j)),
                             Hashed (m_data t ! (lvl_start (unat (LEAFS_N t)) k + 2 * j + 1))]"
    and ex: "\<exists>i < unat (LEAFS_N t). m_data t ! i = leaf_hash t [Data d]"
  shows "\<exists>pf. get_proof t d = Some (LeafAndProof (leaf_hash t [Data d]) pf)
           \<and> verify_proof t d (indexed_by_call pf) = Some True
           \<and> verify_proof t d (std_array pf) = None"
proof -
  let ?n = "unat (LEAFS_N t)"
  let ?K = "halvings ?n"
  let ?m = "m_data t"
  have n2: "2 \<le> ?n" using N(1) by (simp add: word_le_nat_alt)
  have n32: "?n < 2 ^ 32" using N(2) by (simp add: word_less_nat_alt)
  have K64: "?K \<le> 64" using n32 by (intro halvings_le_64) simp
  have lenm: "length ?m = lvl_start ?n ?K + 1" unfolding len by (rule unat_SIZE [OF n32])
  have nlen: "?n \<le> length ?m" unfolding lenm using n2 by (intro count_le_lvl_start) simp
  have "?K * (?n + 1) \<le> 64 * 2 ^ 32" using n32 K64 by (intro mult_mono) simp_all
  then have len64: "length ?m < 2 ^ 64" unfolding lenm using lvl_start_le [of ?n ?K] by simp
  have ne1: "LEAFS_N t \<noteq> 1" using n2 by auto
  from find_leaf_loop_first [OF nlen, of "[Data d]"]
  obtain r where fl: "find_leaf t [Data d] = Some r"
    and rr: "if \<exists>i < ?n. ?m ! i = leaf_hash t [Data d]
         then r < LEAFS_N t \<and> ?m ! unat r = leaf_hash t [Data d]
              \<and> (\<forall>j < unat r. ?m ! j \<noteq> leaf_hash t [Data d])
         else r = - 1" by blast
  from rr have rp: "r < LEAFS_N t \<and> ?m ! unat r = leaf_hash t [Data d]
              \<and> (\<forall>j < unat r. ?m ! j \<noteq> leaf_hash t [Data d])"
    unfolding if_P [OF ex] .
  then have rlt: "r < LEAFS_N t" and rv: "?m ! unat r = leaf_hash t [Data d]" by blast+
  let ?j = "unat r"
  have jn: "?j < ?n" using rlt by (simp add: word_less_nat_alt)
  have rne: "r \<noteq> - 1"
  proof
    assume "r = - 1"
    then have "unat r = 2 ^ 64 - 1" by (simp add: unsigned_minus_1_eq_mask mask_eq_exp_minus_1)
    then show False using jn n32 by simp
  qed
  have rd: "elem_at ?m r = Some (leaf_hash t [Data d])"
    using jn nlen rv by (simp add: elem_at_def)
  have hK: "height (LEAFS_N t) = word_of_nat ?K" by (rule height_of_nat_halvings [OF n32])
  have uh: "unat (height (LEAFS_N t)) = ?K" by (rule unat_height_halvings [OF n32])
  let ?pf0 = "replicate (?K + 1) (0 :: 'h, False)"
  have l0: "length ?pf0 = ?K + 1" by simp
  have j0: "?j < lvl_count ?n 0" using jn by simp
  from get_proof_loop_spec [OF n32 lenm _ j0 l0]
  obtain pf' where gl: "get_proof_loop t (word_of_nat ?K) (word_of_nat 0) (word_of_nat ?j) ?pf0 = Some pf'"
    and lp: "length pf' = ?K + 1"
    and cp: "\<forall>i' < ?K + 1. pf' ! i' =
            (if 0 \<le> i' \<and> i' < ?K
             then (?m ! (lvl_start ?n i' + sibling (?j div 2 ^ (i' - 0))), odd (?j div 2 ^ (i' - 0)))
             else ?pf0 ! i')"
    by blast
  have gl': "get_proof_loop t (word_of_nat ?K) 0 r ?pf0 = Some pf'" using gl by simp
  have us: "unat (SIZE t - 1) = lvl_start ?n ?K"
  proof -
    have "SIZE t = word_of_nat (lvl_start ?n ?K + 1)"
      using unat_SIZE [OF n32] by (metis word_of_nat_eq_iff unsigned_of_nat take_bit_nat_eq_self_iff of_nat_unat ucast_id)
    then have "SIZE t - 1 = word_of_nat (lvl_start ?n ?K)" by simp
    moreover have "lvl_start ?n ?K < 2 ^ 64" using len64 unfolding lenm by simp
    ultimately show ?thesis by (simp only: unat_of_nat64)
  qed
  have rt: "root t = Some (?m ! lvl_start ?n ?K)"
    unfolding root_def elem_at_def us using lenm by simp
  have ul: "unat (word_of_nat (length pf') - 1 :: u64) = ?K"
    unfolding lp using K64 unat_of_nat_pred64 [of "?K + 1"] by simp
  let ?P = "pf'[?K := (?m ! lvl_start ?n ?K, False)]"
  have wr: "elem_put pf' (word_of_nat (length pf') - 1) (?m ! lvl_start ?n ?K, False) = Some ?P"
    unfolding elem_put_def ul using lp by simp
  have gp: "get_proof t d = Some (LeafAndProof (leaf_hash t [Data d]) ?P)"
    unfolding get_proof_def Let_def uh
    by (simp only: hK ne1 if_False fl option.case rne rd gl' rt wr option.map)
  have Pne: "?P \<noteq> []" using lp by auto
  have Pl: "length ?P \<le> 2 ^ 31" using lp K64 by simp
  have lastP: "last ?P = (?m ! lvl_start ?n ?K, False)"
  proof -
    have "last ?P = ?P ! (length ?P - 1)" using Pne by (rule last_conv_nth)
    also have "length ?P - 1 = ?K" using lp by simp
    also have "?P ! ?K = (?m ! lvl_start ?n ?K, False)" using lp by simp
    finally show ?thesis .
  qed
  have butP: "butlast ?P
      = map (\<lambda>i'. (?m ! (lvl_start ?n i' + sibling (?j div 2 ^ (i' - 0))), odd (?j div 2 ^ (i' - 0))))
          [0..<?K]"
  proof (rule nth_equalityI)
    show "length (butlast ?P) = length (map (\<lambda>i'. (?m ! (lvl_start ?n i' + sibling (?j div 2 ^ (i' - 0))),
              odd (?j div 2 ^ (i' - 0)))) [0..<?K])"
      using lp by simp
  next
    fix i assume "i < length (butlast ?P)"
    then have iK: "i < ?K" using lp by simp
    then have "butlast ?P ! i = pf' ! i" using lp by (simp add: nth_butlast)
    also have "\<dots> = (?m ! (lvl_start ?n i + sibling (?j div 2 ^ (i - 0))), odd (?j div 2 ^ (i - 0)))"
      using cp iK by simp
    finally show "butlast ?P ! i = map (\<lambda>i'. (?m ! (lvl_start ?n i' + sibling (?j div 2 ^ (i' - 0))),
              odd (?j div 2 ^ (i' - 0)))) [0..<?K] ! i"
      using iK by simp
  qed
  have n1: "1 \<le> ?n" using n2 by simp
  have path: "foldl (ancestor_hash t) (?m ! (lvl_start ?n 0 + ?j))
           (map (\<lambda>i'. (?m ! (lvl_start ?n i' + sibling (?j div 2 ^ (i' - 0))), odd (?j div 2 ^ (i' - 0))))
              [0..<?K])
         = ?m ! (lvl_start ?n ?K)"
    by (rule path_fold [OF pairs n1 _ j0]) simp
  have start: "?m ! (lvl_start ?n 0 + ?j) = leaf_hash t [Data d]" using rv by simp
  have "verify_proof t d (indexed_by_call ?P)
      = Some (foldl (ancestor_hash t) (leaf_hash t [Data d]) (butlast ?P) = fst (last ?P))"
    by (rule conjunct1 [OF verify_proof_eq_foldl [OF Pne Pl, where t = t and d = d]])
  also have "\<dots> = Some True"
    unfolding butP lastP using path unfolding start by simp
  finally show ?thesis using gp verify_proof_std_array [of t d ?P] by blast
qed

lemma built_tree_proofs_verify:
  fixes t :: "('d, 'h::zero) FixedSizeTree"
  assumes N: "2 \<le> LEAFS_N t" "LEAFS_N t < 2 ^ 32"
    and items: "length items = unat (LEAFS_N t)"
    and len: "length (m_data t) = unat (SIZE t)"
  shows "\<exists>t'. build t items = Some t'
      \<and> (\<forall>d \<in> set items. \<exists>pf. get_proof t' d = Some (LeafAndProof (leaf_hash t [Data d]) pf)
              \<and> verify_proof t' d (indexed_by_call pf) = Some True
              \<and> verify_proof t' d (std_array pf) = None)"
proof -
  let ?n = "unat (LEAFS_N t)"
  from build_spec [OF N items len]
  obtain m' where b: "build t items = Some (t\<lparr>m_data := m'\<rparr>)"
    and l: "length m' = unat (SIZE t)"
    and leaves: "\<forall>j < ?n. m' ! j = leaf_hash t [Data (items ! j)]"
    and pairs: "\<forall>k < halvings ?n. \<forall>j < lvl_count ?n (Suc k).
            m' ! (lvl_start ?n (Suc k) + j)
              = node_hash t [Hashed (m' ! (lvl_start ?n k + 2 * j)),
                             Hashed (m' ! (lvl_start ?n k + 2 * j + 1))]"
    by blast
  let ?t = "t\<lparr>m_data := m'\<rparr>"
  have e1: "LEAFS_N ?t = LEAFS_N t" by simp
  have e2: "SIZE ?t = SIZE t" by (simp add: SIZE_def)
  have e3: "node_hash ?t = node_hash t" by (simp add: node_hash_def fun_eq_iff)
  have e4: "leaf_hash ?t = leaf_hash t" by (simp add: leaf_hash_def fun_eq_iff)
  have e5: "m_data ?t = m'" by simp
  have N': "2 \<le> LEAFS_N ?t" "LEAFS_N ?t < 2 ^ 32" using N by (simp_all only: e1)
  have len': "length (m_data ?t) = unat (SIZE ?t)" using l by (simp only: e2 e5)
  have pairs': "\<forall>k < halvings (unat (LEAFS_N ?t)). \<forall>j < lvl_count (unat (LEAFS_N ?t)) (Suc k).
            m_data ?t ! (lvl_start (unat (LEAFS_N ?t)) (Suc k) + j)
              = node_hash ?t [Hashed (m_data ?t ! (lvl_start (unat (LEAFS_N ?t)) k + 2 * j)),
                             Hashed (m_data ?t ! (lvl_start (unat (LEAFS_N ?t)) k + 2 * j + 1))]"
    using pairs by (simp only: e1 e3 e5)
  have "\<exists>pf. get_proof ?t d = Some (LeafAndProof (leaf_hash t [Data d]) pf)
              \<and> verify_proof ?t d (indexed_by_call pf) = Some True
              \<and> verify_proof ?t d (std_array pf) = None" if d: "d \<in> set items" for d
  proof -
    from d obtain j where j: "j < length items" "items ! j = d" by (auto simp: in_set_conv_nth)
    then have "j < ?n \<and> m' ! j = leaf_hash t [Data d]" using leaves items by auto
    then have ex: "\<exists>i < unat (LEAFS_N ?t). m_data ?t ! i = leaf_hash ?t [Data d]"
      unfolding e1 e4 e5 by blast
    from proof_round_trip [OF N' len' pairs' ex] show ?thesis unfolding e4 .
  qed
  then show ?thesis using b by blast
qed

end
